theory Spec2Isabelle
  imports Main "HOL-Library.Word" "HOL-Library.Multiset"
begin

unbundle bit_operations_syntax

section \<open>Memory model\<close>

text \<open>
  The queue of \<^verbatim>\<open>queue.c\<close> is a circular doubly linked list of \<^verbatim>\<open>struct list_head\<close>
  nodes rooted at a sentinel.  Pointers are addresses, \<^verbatim>\<open>NULL\<close> is address 0.
  The heap is a record of the fields the code reads and writes:
  \<^item> \<open>l_next\<close>, \<open>l_prev\<close>: the \<^verbatim>\<open>next\<close> and \<^verbatim>\<open>prev\<close> members of the \<^verbatim>\<open>list_head\<close> at an address;
  \<^item> \<open>e_value\<close>: the \<^verbatim>\<open>value\<close> member (a \<^verbatim>\<open>char *\<close>) of the \<^verbatim>\<open>element_t\<close> that embeds the
    \<^verbatim>\<open>list_head\<close> at an address (\<^verbatim>\<open>list_entry\<close> is \<^verbatim>\<open>container_of\<close>: the element and its link
    are identified, the constant offset between them is left out);
  \<^item> \<open>c_str\<close>: the bytes of the C string stored at an address, without its terminator;
  \<^item> \<open>live\<close>: the blocks handed out by \<^verbatim>\<open>malloc\<close>/\<^verbatim>\<open>strdup\<close> and not yet given to \<^verbatim>\<open>free\<close>.
  Reads and writes through dangling pointers are not trapped by the model; the theorems
  state where the blocks they need are.
\<close>

type_synonym ptr = nat

abbreviation (input) NULL :: ptr where
  "NULL \<equiv> 0"

abbreviation NUL :: char where
  "NUL \<equiv> CHR 0x00"

record heap =
  l_next :: "ptr \<Rightarrow> ptr"
  l_prev :: "ptr \<Rightarrow> ptr"
  e_value :: "ptr \<Rightarrow> ptr"
  c_str :: "ptr \<Rightarrow> string"
  live :: "ptr set"

definition set_next :: "ptr \<Rightarrow> ptr \<Rightarrow> heap \<Rightarrow> heap" where
  "set_next p q h = h\<lparr>l_next := (l_next h)(p := q)\<rparr>"

definition set_prev :: "ptr \<Rightarrow> ptr \<Rightarrow> heap \<Rightarrow> heap" where
  "set_prev p q h = h\<lparr>l_prev := (l_prev h)(p := q)\<rparr>"

definition set_value :: "ptr \<Rightarrow> ptr \<Rightarrow> heap \<Rightarrow> heap" where
  "set_value e v h = h\<lparr>e_value := (e_value h)(e := v)\<rparr>"

text \<open>
  The C library.  The allocator's answer is an argument of the model: \<open>malloc h p\<close> is the
  heap after \<^verbatim>\<open>malloc\<close> returned \<open>p\<close> (\<open>NULL\<close> when it failed), and \<open>strdup h s v\<close> the heap
  after \<^verbatim>\<open>strdup(s)\<close> returned \<open>v\<close>.
\<close>

definition malloc :: "heap \<Rightarrow> ptr \<Rightarrow> heap" where
  "malloc h p = (if p = NULL then h else h\<lparr>live := insert p (live h)\<rparr>)"

definition free :: "heap \<Rightarrow> ptr \<Rightarrow> heap" where
  "free h p = h\<lparr>live := live h - {p}\<rparr>"

definition strdup :: "heap \<Rightarrow> string \<Rightarrow> ptr \<Rightarrow> heap" where
  "strdup h s v =
     (if v = NULL then h else h\<lparr>c_str := (c_str h)(v := s), live := insert v (live h)\<rparr>)"

text \<open>
  \<^verbatim>\<open>strcmp\<close>: bytes are compared as unsigned values up to the first difference or the
  terminator; the end of the list stands for the terminating NUL.
\<close>

fun strcmp :: "string \<Rightarrow> string \<Rightarrow> int" where
  "strcmp [] [] = 0"
| "strcmp [] (b # bs) = - of_char b"
| "strcmp (a # as) [] = of_char a"
| "strcmp (a # as) (b # bs) =
     (if a \<noteq> b then of_char a - of_char b else if a = NUL then 0 else strcmp as bs)"

text \<open>The payload of the element at \<open>x\<close>: the string its \<^verbatim>\<open>value\<close> member points to.\<close>

definition key :: "heap \<Rightarrow> ptr \<Rightarrow> string" where
  "key h x = c_str h (e_value h x)"

text \<open>\<^verbatim>\<open>q_release_element\<close>: frees the string, then the element.\<close>

definition q_release_element :: "heap \<Rightarrow> ptr \<Rightarrow> heap" where
  "q_release_element h e = free (free h (e_value h e)) e"

section \<open>The list primitives of \<^verbatim>\<open>list.h\<close>\<close>

text \<open>
  Modelled from the spec: the header \<^verbatim>\<open>list.h\<close> (\<^verbatim>\<open>INIT_LIST_HEAD\<close>, \<^verbatim>\<open>list_empty\<close>,
  \<^verbatim>\<open>list_add\<close>, \<^verbatim>\<open>list_add_tail\<close>, \<^verbatim>\<open>list_del\<close>) is not among the sources.  The spec says:
  a new sentinel points to itself in both directions; emptiness is
  \<^verbatim>\<open>sentinel.next == sentinel\<close>; insertion splices the element immediately after (head)
  or immediately before (tail) the sentinel; removal unlinks the element, restoring the
  neighbours' mutual links.
\<close>

definition INIT_LIST_HEAD :: "heap \<Rightarrow> ptr \<Rightarrow> heap" where
  "INIT_LIST_HEAD h head = set_prev head head (set_next head head h)"

definition list_empty :: "heap \<Rightarrow> ptr \<Rightarrow> bool" where
  "list_empty h head = (l_next h head = head)"

definition list_add :: "heap \<Rightarrow> ptr \<Rightarrow> ptr \<Rightarrow> heap" where
  "list_add h node head =
     (let nx = l_next h head;
          h1 = set_prev nx node h;
          h2 = set_next node nx h1;
          h3 = set_prev node head h2
      in set_next head node h3)"

definition list_add_tail :: "heap \<Rightarrow> ptr \<Rightarrow> ptr \<Rightarrow> heap" where
  "list_add_tail h node head =
     (let pv = l_prev h head;
          h1 = set_next pv node h;
          h2 = set_next node head h1;
          h3 = set_prev node pv h2
      in set_prev head node h3)"

definition list_del :: "heap \<Rightarrow> ptr \<Rightarrow> heap" where
  "list_del h node =
     (let nx = l_next h node;
          pv = l_prev h node;
          h1 = set_prev nx pv h
      in set_next pv nx h1)"

section \<open>Insertion and removal\<close>

text \<open>
  \<^verbatim>\<open>q_new\<close>: \<open>p\<close> is what \<^verbatim>\<open>malloc\<close> returned.  The result is the new heap and the handle.
\<close>

definition q_new :: "heap \<Rightarrow> ptr \<Rightarrow> heap \<times> ptr" where
  "q_new h p = (if p = NULL then (h, NULL) else (INIT_LIST_HEAD (malloc h p) p, p))"

text \<open>
  \<^verbatim>\<open>q_insert_head\<close> and \<^verbatim>\<open>q_insert_tail\<close>: \<open>e\<close> is what \<^verbatim>\<open>malloc(sizeof(element_t))\<close>
  returns and \<open>v\<close> what \<^verbatim>\<open>strdup(s)\<close> returns, should the code get that far.
\<close>

definition q_insert_head :: "heap \<Rightarrow> ptr \<Rightarrow> string \<Rightarrow> ptr \<Rightarrow> ptr \<Rightarrow> heap \<times> bool" where
  "q_insert_head h head s e v =
     (if head = NULL then (h, False)
      else if e = NULL then (h, False)
      else let h1 = malloc h e in
        if v = NULL then (free h1 e, False)
        else (list_add (set_value e v (strdup h1 s v)) e head, True))"

definition q_insert_tail :: "heap \<Rightarrow> ptr \<Rightarrow> string \<Rightarrow> ptr \<Rightarrow> ptr \<Rightarrow> heap \<times> bool" where
  "q_insert_tail h head s e v =
     (if head = NULL then (h, False)
      else if e = NULL then (h, False)
      else let h1 = malloc h e in
        if v = NULL then (free h1 e, False)
        else (list_add_tail (set_value e v (strdup h1 s v)) e head, True))"

text \<open>
  The out-buffer of \<^verbatim>\<open>q_remove_head\<close>/\<^verbatim>\<open>q_remove_tail\<close> is the caller's array: \<open>None\<close> for a
  \<^verbatim>\<open>NULL\<close> pointer, \<open>Some buf\<close> for an array whose bytes are \<open>buf\<close> (its length is the
  array's capacity).  \<^verbatim>\<open>size_t\<close> is a 64-bit word, so \<^verbatim>\<open>bufsize - 1\<close> wraps at 0.  A write
  past the end of the array is the fault \<open>BufferOverrun\<close>.

  \<^verbatim>\<open>strncpy(dest, src, n)\<close> writes exactly \<open>n\<close> bytes: the first \<open>n\<close> bytes of the source,
  padded with NULs when the source is shorter.
\<close>

datatype fault = BufferOverrun

definition strncpy :: "char list \<Rightarrow> string \<Rightarrow> nat \<Rightarrow> fault + char list" where
  "strncpy dest src n =
     (if length dest < n then Inl BufferOverrun
      else Inr (take n (src @ replicate n NUL) @ drop n dest))"

definition store_byte :: "char list \<Rightarrow> nat \<Rightarrow> char \<Rightarrow> fault + char list" where
  "store_byte dest i c = (if length dest \<le> i then Inl BufferOverrun else Inr (dest[i := c]))"

definition copy_out :: "string \<Rightarrow> char list option \<Rightarrow> 64 word \<Rightarrow> fault + char list option" where
  "copy_out src sp bufsize =
     (case sp of
        None \<Rightarrow> Inr None
      | Some buf \<Rightarrow>
          (case strncpy buf src (unat (bufsize - 1)) of
             Inl f \<Rightarrow> Inl f
           | Inr buf1 \<Rightarrow>
               (case store_byte buf1 (unat (bufsize - 1)) NUL of
                  Inl f \<Rightarrow> Inl f
                | Inr buf2 \<Rightarrow> Inr (Some buf2))))"

definition q_remove_head ::
    "heap \<Rightarrow> ptr \<Rightarrow> char list option \<Rightarrow> 64 word \<Rightarrow> fault + (heap \<times> ptr \<times> char list option)" where
  "q_remove_head h head sp bufsize =
     (if head = NULL \<or> list_empty h head then Inr (h, NULL, sp)
      else let element = l_next h head;
               h1 = list_del h element
           in (case copy_out (key h1 element) sp bufsize of
                 Inl f \<Rightarrow> Inl f
               | Inr sp1 \<Rightarrow> Inr (h1, element, sp1)))"

definition q_remove_tail ::
    "heap \<Rightarrow> ptr \<Rightarrow> char list option \<Rightarrow> 64 word \<Rightarrow> fault + (heap \<times> ptr \<times> char list option)" where
  "q_remove_tail h head sp bufsize =
     (if head = NULL \<or> list_empty h head then Inr (h, NULL, sp)
      else let element = l_prev h head;
               h1 = list_del h element
           in (case copy_out (key h1 element) sp bufsize of
                 Inl f \<Rightarrow> Inl f
               | Inr sp1 \<Rightarrow> Inr (h1, element, sp1)))"

section \<open>Well-formed queues\<close>

text \<open>
  \<open>path f p xs q\<close>: following the field \<open>f\<close> from \<open>p\<close> visits exactly \<open>xs\<close> and then
  arrives at \<open>q\<close>.
\<close>

fun path :: "(ptr \<Rightarrow> ptr) \<Rightarrow> ptr \<Rightarrow> ptr list \<Rightarrow> ptr \<Rightarrow> bool" where
  "path f p [] q = (f p = q)"
| "path f p (x # xs) q = (f p = x \<and> path f x xs q)"

text \<open>
  \<open>dlist h head xs\<close>: the sentinel \<open>head\<close> and the nodes \<open>xs\<close> (in queue order) form a
  circular doubly linked list: \<open>next\<close> runs through \<open>xs\<close> from the sentinel back to the
  sentinel, \<open>prev\<close> runs through them in the opposite order, no node is \<open>NULL\<close> or occurs
  twice.
\<close>

definition dlist :: "heap \<Rightarrow> ptr \<Rightarrow> ptr list \<Rightarrow> bool" where
  "dlist h head xs =
     (head \<noteq> NULL \<and> NULL \<notin> set xs \<and> head \<notin> set xs \<and> distinct xs \<and>
      path (l_next h) head xs head \<and> path (l_prev h) head (rev xs) head)"

text \<open>
  \<open>queue h head xs\<close>: a well-formed list whose blocks are allocated, each element owning a
  string block of its own.
\<close>

definition queue :: "heap \<Rightarrow> ptr \<Rightarrow> ptr list \<Rightarrow> bool" where
  "queue h head xs =
     (dlist h head xs \<and> set (head # xs) \<subseteq> live h \<and> set (map (e_value h) xs) \<subseteq> live h \<and>
      distinct (map (e_value h) xs) \<and> set (map (e_value h) xs) \<inter> set (head # xs) = {})"

section \<open>Basic facts\<close>

lemma l_next_set_next [simp]: "l_next (set_next p q h) = (l_next h)(p := q)"
  by (simp add: set_next_def)

lemma l_prev_set_next [simp]: "l_prev (set_next p q h) = l_prev h"
  by (simp add: set_next_def)

lemma l_next_set_prev [simp]: "l_next (set_prev p q h) = l_next h"
  by (simp add: set_prev_def)

lemma l_prev_set_prev [simp]: "l_prev (set_prev p q h) = (l_prev h)(p := q)"
  by (simp add: set_prev_def)

lemma other_set_next [simp]:
  "e_value (set_next p q h) = e_value h" "c_str (set_next p q h) = c_str h"
  "live (set_next p q h) = live h"
  by (simp_all add: set_next_def)

lemma other_set_prev [simp]:
  "e_value (set_prev p q h) = e_value h" "c_str (set_prev p q h) = c_str h"
  "live (set_prev p q h) = live h"
  by (simp_all add: set_prev_def)

lemma key_set_next [simp]: "key (set_next p q h) = key h"
  by (simp add: key_def fun_eq_iff)

lemma key_set_prev [simp]: "key (set_prev p q h) = key h"
  by (simp add: key_def fun_eq_iff)

lemma path_upd [simp]:
  "u \<noteq> p \<Longrightarrow> u \<notin> set xs \<Longrightarrow> path (f(u := v)) p xs q = path f p xs q"
  by (induction xs arbitrary: p) auto

lemma path_append:
  "path f p (xs @ y # ys) q = (path f p xs y \<and> path f y ys q)"
  by (induction xs arbitrary: p) auto

lemma path_snoc: "path f p (xs @ [y]) q = (path f p xs y \<and> f y = q)"
  by (simp add: path_append)

lemma path_cong:
  "(\<And>x. x \<in> set (p # xs) \<Longrightarrow> g x = f x) \<Longrightarrow> path g p xs q = path f p xs q"
  by (induction xs arbitrary: p) auto

section \<open>Insertion\<close>

lemma dlist_list_add:
  assumes "dlist h head xs" "e \<noteq> NULL" "e \<notin> set (head # xs)"
  shows "dlist (list_add h e head) head (e # xs)"
  using assms by (cases xs) (auto simp: dlist_def list_add_def Let_def path_append)

lemma dlist_list_add_tail:
  assumes "dlist h head xs" "e \<noteq> NULL" "e \<notin> set (head # xs)"
  shows "dlist (list_add_tail h e head) head (xs @ [e])"
  using assms by (cases xs rule: rev_cases) (auto simp: dlist_def list_add_tail_def Let_def path_append)

lemma dlist_list_del:
  assumes "dlist h head (as @ x # bs)"
  shows "dlist (list_del h x) head (as @ bs)"
  using assms 
  apply (cases as rule: rev_cases; cases bs)
  apply (auto simp: dlist_def list_del_def Let_def path_snoc path_append)
  done

lemma other_list_add [simp]:
  "e_value (list_add h e head) = e_value h" "c_str (list_add h e head) = c_str h"
  "live (list_add h e head) = live h" "key (list_add h e head) = key h"
  by (simp_all add: list_add_def Let_def)

lemma other_list_add_tail [simp]:
  "e_value (list_add_tail h e head) = e_value h" "c_str (list_add_tail h e head) = c_str h"
  "live (list_add_tail h e head) = live h" "key (list_add_tail h e head) = key h"
  by (simp_all add: list_add_tail_def Let_def)

lemma other_list_del [simp]:
  "e_value (list_del h x) = e_value h" "c_str (list_del h x) = c_str h"
  "live (list_del h x) = live h" "key (list_del h x) = key h"
  by (simp_all add: list_del_def Let_def)

definition new_element :: "heap \<Rightarrow> string \<Rightarrow> ptr \<Rightarrow> ptr \<Rightarrow> heap" where
  "new_element h s e v = set_value e v (strdup (malloc h e) s v)"

lemma new_element_fields:
  assumes "e \<noteq> NULL" "v \<noteq> NULL"
  shows "l_next (new_element h s e v) = l_next h" "l_prev (new_element h s e v) = l_prev h"
    "e_value (new_element h s e v) = (e_value h)(e := v)"
    "c_str (new_element h s e v) = (c_str h)(v := s)"
    "live (new_element h s e v) = insert e (insert v (live h))"
  using assms by (auto simp: new_element_def set_value_def strdup_def malloc_def)

lemma dlist_fields:
  "l_next g = l_next h \<Longrightarrow> l_prev g = l_prev h \<Longrightarrow> dlist g head xs = dlist h head xs"
  by (simp add: dlist_def)

lemma queue_new_element:
  assumes q: "queue h head xs" and e: "e \<noteq> NULL" "e \<notin> live h"
    and v: "v \<noteq> NULL" "v \<notin> live h" "v \<noteq> e"
  shows "dlist (new_element h s e v) head xs"
    and "e \<notin> set (head # xs)"
    and "key (new_element h s e v) e = s"
    and "map (key (new_element h s e v)) xs = map (key h) xs"
    and "map (e_value (new_element h s e v)) xs = map (e_value h) xs"
proof -
  let ?g = "new_element h s e v"
  note f = new_element_fields [OF e(1) v(1), of h s]
  show "dlist ?g head xs" using q by (simp add: queue_def dlist_fields [OF f(1) f(2)])
  show e': "e \<notin> set (head # xs)" using q e by (auto simp: queue_def)
  show "key ?g e = s" by (simp add: key_def f)
  have "\<And>x. x \<in> set xs \<Longrightarrow> e_value h x \<noteq> v \<and> x \<noteq> e"
    using q v e by (auto simp: queue_def)
  then show "map (key ?g) xs = map (key h) xs" "map (e_value ?g) xs = map (e_value h) xs"
    by (auto simp: key_def f)
qed

lemma queue_insert:
  assumes q: "queue h head xs" and e: "e \<noteq> NULL" "e \<notin> live h"
    and v: "v \<noteq> NULL" "v \<notin> live h" "v \<noteq> e"
    and g: "dlist g head ys" "set ys = insert e (set xs)"
      "e_value g = e_value (new_element h s e v)" "live g = live (new_element h s e v)"
  shows "queue g head ys"
proof -
  note f = new_element_fields [OF e(1) v(1), of h s]
  have ne: "\<And>x. x \<in> set xs \<Longrightarrow> e_value h x \<noteq> v \<and> x \<noteq> e \<and> e_value h x \<noteq> e"
    using q v e by (auto simp: queue_def)
  have d: "distinct ys" using g(1) by (simp add: dlist_def)
  have inj: "inj_on (e_value h) (set xs)"
    using q by (simp add: queue_def distinct_map)
  have "inj_on ((e_value h)(e := v)) (insert e (set xs))"
    using inj ne by (auto simp: inj_on_def)
  then have 1: "distinct (map (e_value g) ys)"
    using d g by (simp add: distinct_map f)
  have 2: "set (head # ys) \<subseteq> live g"
    using q g by (auto simp: queue_def f)
  have 3: "set (map (e_value g) ys) \<subseteq> live g"
    using q g by (auto simp: queue_def f)
  have 4: "set (map (e_value g) ys) \<inter> set (head # ys) = {}"
    using q g ne e v by (auto simp: queue_def f)
  show ?thesis using g(1) 1 2 3 4 by (simp add: queue_def)
qed

text \<open>A queue holding the single element 2 with payload \<^verbatim>\<open>"b"\<close>, sentinel 1.\<close>

definition heap1 :: heap where
  "heap1 = \<lparr>l_next = (\<lambda>_. NULL)(1 := 2, 2 := 1), l_prev = (\<lambda>_. NULL)(1 := 2, 2 := 1),
     e_value = (\<lambda>_. NULL)(2 := 5), c_str = (\<lambda>_. [])(5 := ''b''), live = {1, 2, 5}\<rparr>"

text \<open>
  Claim C7.  \<^verbatim>\<open>q_insert_head\<close> and \<^verbatim>\<open>q_insert_tail\<close> are all-or-nothing.  On a well-formed
  queue, with the allocator handing out fresh blocks: when both allocations succeed they
  return true and the queue has exactly one new element \<open>e\<close>, first (head) or last
  (tail), whose \<^verbatim>\<open>value\<close> is the fresh block \<open>v\<close> holding a copy of \<open>s\<close>, the other
  payloads being what they were and the allocated blocks being the old ones plus \<open>e\<close> and
  \<open>v\<close>; when either allocation fails they return false and the heap is exactly the heap
  before the call (the element allocated before a failed \<^verbatim>\<open>strdup\<close> has been freed); on
  a \<^verbatim>\<open>NULL\<close> handle they return false and leave any heap as it is.
\<close>

theorem q_insert_all_or_nothing:
  assumes q: "queue h head xs"
    and e: "e = NULL \<or> e \<notin> live h"
    and v: "v = NULL \<or> (v \<notin> live h \<and> v \<noteq> e)"
  shows "(e \<noteq> NULL \<and> v \<noteq> NULL \<longrightarrow>
           (\<exists>h'. q_insert_head h head s e v = (h', True) \<and> queue h' head (e # xs) \<and>
                 e_value h' e = v \<and> key h' e = s \<and> map (key h') xs = map (key h) xs \<and>
                 live h' = live h \<union> {e, v}) \<and>
           (\<exists>h'. q_insert_tail h head s e v = (h', True) \<and> queue h' head (xs @ [e]) \<and>
                 e_value h' e = v \<and> key h' e = s \<and> map (key h') xs = map (key h) xs \<and>
                 live h' = live h \<union> {e, v})) \<and>
         (e = NULL \<or> v = NULL \<longrightarrow>
           q_insert_head h head s e v = (h, False) \<and> q_insert_tail h head s e v = (h, False)) \<and>
         q_insert_head g NULL s e v = (g, False) \<and> q_insert_tail g NULL s e v = (g, False)"
proof -
  have hd: "head \<noteq> NULL" using q by (simp add: queue_def dlist_def)
  have fail: "q_insert_head h head s e v = (h, False) \<and> q_insert_tail h head s e v = (h, False)"
    if "e = NULL \<or> v = NULL"
  proof (cases "e = NULL")
    case True
    then show ?thesis by (simp add: q_insert_head_def q_insert_tail_def)
  next
    case False
    with that e have "v = NULL" "e \<notin> live h" by auto
    then have "free (malloc h e) e = h"
      using False by (simp add: free_def malloc_def)
    then show ?thesis
      using False \<open>v = NULL\<close> by (simp add: q_insert_head_def q_insert_tail_def Let_def)
  qed
  have ok: "(\<exists>h'. q_insert_head h head s e v = (h', True) \<and> queue h' head (e # xs) \<and>
                 e_value h' e = v \<and> key h' e = s \<and> map (key h') xs = map (key h) xs \<and>
                 live h' = live h \<union> {e, v}) \<and>
           (\<exists>h'. q_insert_tail h head s e v = (h', True) \<and> queue h' head (xs @ [e]) \<and>
                 e_value h' e = v \<and> key h' e = s \<and> map (key h') xs = map (key h) xs \<and>
                 live h' = live h \<union> {e, v})"
    if ev: "e \<noteq> NULL" "v \<noteq> NULL"
  proof -
    let ?n = "new_element h s e v"
    from ev e v have fr: "e \<notin> live h" "v \<notin> live h" "v \<noteq> e" by auto
    note ne = queue_new_element [OF q ev(1) fr(1) ev(2) fr(2) fr(3)]
    note f = new_element_fields [OF ev, of h s]
    have h1: "q_insert_head h head s e v = (list_add ?n e head, True)"
      using hd ev by (simp add: q_insert_head_def new_element_def Let_def)
    have h2: "q_insert_tail h head s e v = (list_add_tail ?n e head, True)"
      using hd ev by (simp add: q_insert_tail_def new_element_def Let_def)
    have d1: "dlist (list_add ?n e head) head (e # xs)"
      by (rule dlist_list_add [OF ne(1) ev(1) ne(2)])
    have d2: "dlist (list_add_tail ?n e head) head (xs @ [e])"
      by (rule dlist_list_add_tail [OF ne(1) ev(1) ne(2)])
    have q1: "queue (list_add ?n e head) head (e # xs)"
      by (rule queue_insert [OF q ev(1) fr(1) ev(2) fr(2) fr(3) d1]) simp_all
    have q2: "queue (list_add_tail ?n e head) head (xs @ [e])"
      by (rule queue_insert [OF q ev(1) fr(1) ev(2) fr(2) fr(3) d2]) simp_all
    show ?thesis
      using h1 h2 q1 q2 ne(3,4) by (auto simp: f)
  qed
  show ?thesis
    using fail ok by (simp add: q_insert_head_def q_insert_tail_def)
qed

theorem q_insert_all_or_nothing_witness:
  "queue heap1 1 [2] \<and>
   (\<exists>h'. q_insert_head heap1 1 ''a'' 3 4 = (h', True) \<and> queue h' 1 [3, 2] \<and>
      map (key h') [3, 2] = [''a'', ''b'']) \<and>
   (\<exists>h'. q_insert_tail heap1 1 ''a'' 3 4 = (h', True) \<and> queue h' 1 [2, 3] \<and>
      map (key h') [2, 3] = [''b'', ''a'']) \<and>
   q_insert_head heap1 1 ''a'' 3 NULL = (heap1, False) \<and>
   q_insert_tail heap1 1 ''a'' NULL NULL = (heap1, False)"
proof -
  have q: "queue heap1 1 [2]"
    by (simp add: queue_def dlist_def heap1_def)
  have k: "map (key heap1) [2] = [''b'']"
    by (simp add: key_def heap1_def)
  have l: "3 \<notin> live heap1" "4 \<notin> live heap1" by (simp_all add: heap1_def)
  from q_insert_all_or_nothing [OF q, of 3 4 "''a''" heap1]
       q_insert_all_or_nothing [OF q, of 3 NULL "''a''" heap1]
       q_insert_all_or_nothing [OF q, of NULL NULL "''a''" heap1]
  show ?thesis using q k l by auto
qed

section \<open>Removal\<close>

lemma takeWhile_stop: "\<not> P y \<Longrightarrow> takeWhile P (xs @ y # ys) = takeWhile P xs"
  by (induction xs) auto

lemma takeWhile_pad: "takeWhile (\<lambda>c. c \<noteq> z) (xs @ replicate k z) = takeWhile (\<lambda>c. c \<noteq> z) xs"
  by (cases k) (simp_all add: takeWhile_stop)

lemma copy_out_None [simp]: "copy_out src None n = Inr None"
  by (simp add: copy_out_def)

lemma copy_out_ok:
  assumes "unat (n - 1) < length buf"
  shows "\<exists>buf'. copy_out src (Some buf) n = Inr (Some buf') \<and> length buf' = length buf \<and>
           buf' ! unat (n - 1) = NUL \<and>
           takeWhile (\<lambda>c. c \<noteq> NUL) buf' = takeWhile (\<lambda>c. c \<noteq> NUL) (take (unat (n - 1)) src)"
proof -
  define m where "m = unat (n - 1)"
  define P where "P = take m (src @ replicate m NUL)"
  have lp: "length P = m" by (simp add: P_def)
  have P: "P = take m src @ replicate (min m (m - length src)) NUL" by (simp add: P_def)
  from assms have m: "m < length buf" by (simp add: m_def)
  then obtain c cs where d: "drop m buf = c # cs"
    by (cases "drop m buf") auto
  have upd: "(P @ drop m buf)[m := NUL] = P @ NUL # cs"
    using lp d by (simp add: list_update_append)
  have len: "length (P @ NUL # cs) = length buf"
  proof -
    have "length (c # cs) = length buf - m" using d by (metis length_drop)
    then show ?thesis using lp m by simp
  qed
  have s1: "strncpy buf src m = Inr (P @ drop m buf)"
    using m by (simp add: strncpy_def P_def)
  have "length (P @ drop m buf) = length buf" using lp m by simp
  then have s2: "store_byte (P @ drop m buf) m NUL = Inr (P @ NUL # cs)"
    using m upd by (simp only: store_byte_def) simp
  have co: "copy_out src (Some buf) n = Inr (Some (P @ NUL # cs))"
    unfolding copy_out_def m_def [symmetric] by (simp add: s1 s2)
  have "takeWhile (\<lambda>c. c \<noteq> NUL) (P @ NUL # cs) = takeWhile (\<lambda>c. c \<noteq> NUL) (take m src)"
    by (simp add: takeWhile_stop) (simp add: P takeWhile_pad)
  moreover have "(P @ NUL # cs) ! m = NUL" using lp by (simp add: nth_append)
  ultimately show ?thesis using co len by (simp add: m_def)
qed

lemma dlist_first:
  assumes "dlist h head (x # xs)"
  shows "l_next h head = x" "x \<noteq> NULL" "x \<noteq> head" "head \<noteq> NULL" "\<not> list_empty h head"
  using assms by (auto simp: dlist_def list_empty_def)

lemma dlist_last:
  assumes "dlist h head (xs @ [x])"
  shows "l_prev h head = x" "x \<noteq> NULL" "x \<noteq> head" "head \<noteq> NULL" "\<not> list_empty h head"
  using assms by (cases xs; auto simp: dlist_def list_empty_def)+

lemma dlist_empty:
  "dlist h head [] \<Longrightarrow> list_empty h head"
  by (simp add: dlist_def list_empty_def)

lemma queue_list_del:
  assumes "queue h head (as @ x # bs)"
  shows "queue (list_del h x) head (as @ bs)"
  using assms dlist_list_del [of h head as x bs] by (auto simp: queue_def)

lemma q_remove_head_nonempty:
  assumes "dlist h head (x # xs)"
  shows "q_remove_head h head sp n =
           (case copy_out (key h x) sp n of Inl f \<Rightarrow> Inl f | Inr sp1 \<Rightarrow> Inr (list_del h x, x, sp1))"
  using dlist_first [OF assms] by (simp add: q_remove_head_def Let_def)

lemma q_remove_tail_nonempty:
  assumes "dlist h head (xs @ [x])"
  shows "q_remove_tail h head sp n =
           (case copy_out (key h x) sp n of Inl f \<Rightarrow> Inl f | Inr sp1 \<Rightarrow> Inr (list_del h x, x, sp1))"
  using dlist_last [OF assms] by (simp add: q_remove_tail_def Let_def)

text \<open>
  \<open>room sp n\<close>: the out-buffer, when there is one, has a byte at index \<^verbatim>\<open>bufsize - 1\<close>.
  \<open>copied src n sp sp'\<close>: the buffer \<open>sp'\<close> is \<open>sp\<close> after the copy: the same array, a NUL at
  index \<^verbatim>\<open>bufsize - 1\<close>, and the C string it holds is the first \<^verbatim>\<open>bufsize - 1\<close> bytes of
  \<open>src\<close>.
\<close>

definition room :: "char list option \<Rightarrow> 64 word \<Rightarrow> bool" where
  "room sp n = (case sp of None \<Rightarrow> True | Some buf \<Rightarrow> unat (n - 1) < length buf)"

definition copied :: "string \<Rightarrow> 64 word \<Rightarrow> char list option \<Rightarrow> char list option \<Rightarrow> bool" where
  "copied src n sp sp' =
     (case sp of
        None \<Rightarrow> sp' = None
      | Some buf \<Rightarrow>
          (case sp' of
             None \<Rightarrow> False
           | Some buf' \<Rightarrow>
               length buf' = length buf \<and> buf' ! unat (n - 1) = NUL \<and>
               takeWhile (\<lambda>c. c \<noteq> NUL) buf' = takeWhile (\<lambda>c. c \<noteq> NUL) (take (unat (n - 1)) src)))"

text \<open>Sentinel 1, elements 2 and 3 with payloads \<^verbatim>\<open>"hello"\<close> and \<^verbatim>\<open>"yo"\<close>.\<close>

definition heap2 :: heap where
  "heap2 = \<lparr>l_next = (\<lambda>_. NULL)(1 := 2, 2 := 3, 3 := 1), l_prev = (\<lambda>_. NULL)(1 := 3, 2 := 1, 3 := 2),
     e_value = (\<lambda>_. NULL)(2 := 5, 3 := 6), c_str = (\<lambda>_. [])(5 := ''hello'', 6 := ''yo''),
     live = {1, 2, 3, 5, 6}\<rparr>"

lemma copy_out_copied:
  assumes "room sp n"
  shows "\<exists>sp'. copy_out src sp n = Inr sp' \<and> copied src n sp sp'"
proof (cases sp)
  case None
  then show ?thesis by (simp add: copied_def)
next
  case (Some buf)
  with assms have "unat (n - 1) < length buf" by (simp add: room_def)
  from copy_out_ok [OF this, of src] Some show ?thesis
    by (auto simp: copied_def)
qed

text \<open>
  Claim C6.  \<^verbatim>\<open>q_remove_head\<close> and \<^verbatim>\<open>q_remove_tail\<close> return \<^verbatim>\<open>NULL\<close>, with heap and buffer
  untouched, when the handle is \<^verbatim>\<open>NULL\<close> or the list is empty.  On a non-empty list they
  return the first (last) element, which is not \<^verbatim>\<open>NULL\<close>; the heap is the old one after
  \<^verbatim>\<open>list_del\<close> of that element, in which the remaining elements form a well-formed list
  in their old order; nothing is freed and no string or \<^verbatim>\<open>value\<close> pointer changes; and a
  non-null out-buffer holds the element's string truncated to \<^verbatim>\<open>bufsize - 1\<close> bytes, with
  a NUL at index \<^verbatim>\<open>bufsize - 1\<close>.
\<close>

theorem q_remove_spec:
  assumes d: "dlist h head ys" and r: "room sp n"
  shows "q_remove_head g NULL sp n = Inr (g, NULL, sp) \<and>
         q_remove_tail g NULL sp n = Inr (g, NULL, sp) \<and>
         (ys = [] \<longrightarrow> q_remove_head h head sp n = Inr (h, NULL, sp) \<and>
                      q_remove_tail h head sp n = Inr (h, NULL, sp)) \<and>
         (ys \<noteq> [] \<longrightarrow>
            (\<exists>sp'. q_remove_head h head sp n = Inr (list_del h (hd ys), hd ys, sp') \<and>
                   copied (key h (hd ys)) n sp sp') \<and>
            hd ys \<noteq> NULL \<and> dlist (list_del h (hd ys)) head (tl ys) \<and>
            (\<exists>sp'. q_remove_tail h head sp n = Inr (list_del h (last ys), last ys, sp') \<and>
                   copied (key h (last ys)) n sp sp') \<and>
            last ys \<noteq> NULL \<and> dlist (list_del h (last ys)) head (butlast ys) \<and>
            (\<forall>x. live (list_del h x) = live h \<and> c_str (list_del h x) = c_str h \<and>
                 e_value (list_del h x) = e_value h))"
proof -
  have absent: "q_remove_head g NULL sp n = Inr (g, NULL, sp)"
    "q_remove_tail g NULL sp n = Inr (g, NULL, sp)"
    by (simp_all add: q_remove_head_def q_remove_tail_def)
  have empty: "q_remove_head h head sp n = Inr (h, NULL, sp) \<and>
      q_remove_tail h head sp n = Inr (h, NULL, sp)" if "ys = []"
    using dlist_empty d that by (simp add: q_remove_head_def q_remove_tail_def)
  have front: "(\<exists>sp'. q_remove_head h head sp n = Inr (list_del h (hd ys), hd ys, sp') \<and>
                   copied (key h (hd ys)) n sp sp') \<and>
            hd ys \<noteq> NULL \<and> dlist (list_del h (hd ys)) head (tl ys)" if "ys \<noteq> []"
  proof -
    from that obtain x xs where ys: "ys = x # xs" by (cases ys) auto
    from d ys have dx: "dlist h head (x # xs)" by simp
    from dlist_list_del [of h head "[]" x xs] dx have "dlist (list_del h x) head xs" by simp
    moreover obtain sp' where "copy_out (key h x) sp n = Inr sp'" "copied (key h x) n sp sp'"
      using copy_out_copied [OF r] by blast
    ultimately show ?thesis
      using q_remove_head_nonempty [OF dx, of sp n] dlist_first(2) [OF dx] ys by simp
  qed
  have rear: "(\<exists>sp'. q_remove_tail h head sp n = Inr (list_del h (last ys), last ys, sp') \<and>
                   copied (key h (last ys)) n sp sp') \<and>
            last ys \<noteq> NULL \<and> dlist (list_del h (last ys)) head (butlast ys)" if "ys \<noteq> []"
  proof -
    from that obtain x xs where ys: "ys = xs @ [x]" by (cases ys rule: rev_cases) auto
    from d ys have dx: "dlist h head (xs @ [x])" by simp
    from dlist_list_del [of h head xs x "[]"] dx have "dlist (list_del h x) head xs" by simp
    moreover obtain sp' where "copy_out (key h x) sp n = Inr sp'" "copied (key h x) n sp sp'"
      using copy_out_copied [OF r] by blast
    ultimately show ?thesis
      using q_remove_tail_nonempty [OF dx, of sp n] dlist_last(2) [OF dx] ys by simp
  qed
  show ?thesis using absent empty front rear by simp
qed

theorem q_remove_spec_witness:
  "dlist heap2 1 [2, 3] \<and> room (Some ''zzzz'') 4 \<and>
   q_remove_head heap2 1 (Some ''zzzz'') 4 =
     Inr (list_del heap2 2, 2, Some [CHR ''h'', CHR ''e'', CHR ''l'', NUL]) \<and>
   dlist (list_del heap2 2) 1 [3] \<and>
   q_remove_tail heap2 1 (Some ''zzzz'') 4 =
     Inr (list_del heap2 3, 3, Some [CHR ''y'', CHR ''o'', NUL, NUL]) \<and>
   dlist (list_del heap2 3) 1 [2] \<and>
   key (list_del heap2 2) 2 = ''hello''"
proof -
  have d: "dlist heap2 1 [2, 3]" by (simp add: dlist_def heap2_def)
  have r: "room (Some ''zzzz'') 4" by (simp add: room_def)
  have k: "key heap2 2 = ''hello''" "key heap2 3 = ''yo''" by (simp_all add: key_def heap2_def)
  have c: "copy_out ''hello'' (Some ''zzzz'') 4 = Inr (Some [CHR ''h'', CHR ''e'', CHR ''l'', NUL])"
    "copy_out ''yo'' (Some ''zzzz'') 4 = Inr (Some [CHR ''y'', CHR ''o'', NUL, NUL])"
    by (simp_all add: copy_out_def strncpy_def store_byte_def)
  have e: "q_remove_head heap2 1 (Some ''zzzz'') 4 =
     Inr (list_del heap2 2, 2, Some [CHR ''h'', CHR ''e'', CHR ''l'', NUL])"
    "q_remove_tail heap2 1 (Some ''zzzz'') 4 =
     Inr (list_del heap2 3, 3, Some [CHR ''y'', CHR ''o'', NUL, NUL])"
    using q_remove_head_nonempty [of heap2 1 2 "[3]"] q_remove_tail_nonempty [of heap2 1 "[2]" 3] d
    by (simp_all add: k c)
  from q_remove_spec [OF d r, of heap2] show ?thesis
    using d r e k by simp
qed

lemma unat_minus_one_64: "n \<noteq> 0 \<Longrightarrow> unat (n - 1 :: 64 word) = unat n - 1"
  by (simp add: unat_minus_one)

lemma unat_zero_minus_one_64: "unat (0 - 1 :: 64 word) = 2 ^ 64 - 1"
  by (simp add: unsigned_minus_1_eq_mask mask_eq_exp_minus_1)

lemma copy_out_overrun:
  "length buf < unat (n - 1) \<Longrightarrow> copy_out src (Some buf) n = Inl BufferOverrun"
  by (simp add: copy_out_def strncpy_def)

text \<open>
  Claim C10.  On a non-empty list with a non-null out-buffer: when \<^verbatim>\<open>bufsize\<close> is at least 1
  and the buffer has \<^verbatim>\<open>bufsize\<close> bytes, \<^verbatim>\<open>bufsize - 1\<close> does not wrap, the index of the
  terminator is inside the buffer and the call returns the element with a NUL written
  there.  When \<^verbatim>\<open>bufsize\<close> is 0 the unsigned subtraction wraps to \<open>2 ^ 64 - 1\<close>, and the copy
  overruns every buffer shorter than that.
\<close>

theorem q_remove_bufsize_contract:
  assumes d: "dlist h head ys" and ne: "ys \<noteq> []"
  shows "(n \<noteq> 0 \<and> unat n \<le> length buf \<longrightarrow>
            unat (n - 1) = unat n - 1 \<and> unat (n - 1) < length buf \<and>
            (\<exists>buf'. q_remove_head h head (Some buf) n = Inr (list_del h (hd ys), hd ys, Some buf') \<and>
                    length buf' = length buf \<and> buf' ! (unat n - 1) = NUL) \<and>
            (\<exists>buf'. q_remove_tail h head (Some buf) n = Inr (list_del h (last ys), last ys, Some buf') \<and>
                    length buf' = length buf \<and> buf' ! (unat n - 1) = NUL)) \<and>
         unat (0 - 1 :: 64 word) = 2 ^ 64 - 1 \<and>
         (length buf < 2 ^ 64 - 1 \<longrightarrow>
            q_remove_head h head (Some buf) 0 = Inl BufferOverrun \<and>
            q_remove_tail h head (Some buf) 0 = Inl BufferOverrun)"
proof -
  from ne obtain x xs where f: "ys = x # xs" by (cases ys) auto
  from ne obtain z zs where l: "ys = zs @ [z]" by (cases ys rule: rev_cases) auto
  from d f have df: "dlist h head (x # xs)" by simp
  from d l have dl: "dlist h head (zs @ [z])" by simp
  note rh = q_remove_head_nonempty [OF df, of "Some buf"]
  note rt = q_remove_tail_nonempty [OF dl, of "Some buf"]
  have ok: "unat (n - 1) = unat n - 1 \<and> unat (n - 1) < length buf \<and>
            (\<exists>buf'. q_remove_head h head (Some buf) n = Inr (list_del h (hd ys), hd ys, Some buf') \<and>
                    length buf' = length buf \<and> buf' ! (unat n - 1) = NUL) \<and>
            (\<exists>buf'. q_remove_tail h head (Some buf) n = Inr (list_del h (last ys), last ys, Some buf') \<and>
                    length buf' = length buf \<and> buf' ! (unat n - 1) = NUL)"
    if n: "n \<noteq> 0" "unat n \<le> length buf"
  proof -
    have u: "unat (n - 1) = unat n - 1" by (rule unat_minus_one_64 [OF n(1)])
    have "unat n \<noteq> 0" using n(1) by (simp add: unat_eq_0)
    with n(2) u have b: "unat (n - 1) < length buf" by simp
    from copy_out_ok [OF b, of "key h x"] obtain b1 where
      1: "copy_out (key h x) (Some buf) n = Inr (Some b1)" "length b1 = length buf"
         "b1 ! unat (n - 1) = NUL" by blast
    from copy_out_ok [OF b, of "key h z"] obtain b2 where
      2: "copy_out (key h z) (Some buf) n = Inr (Some b2)" "length b2 = length buf"
         "b2 ! unat (n - 1) = NUL" by blast
    have "hd ys = x" using f by simp
    moreover have "last ys = z" using l by simp
    ultimately show ?thesis using u b 1 2 rh [of n] rt [of n] by simp
  qed
  have bad: "q_remove_head h head (Some buf) 0 = Inl BufferOverrun \<and>
            q_remove_tail h head (Some buf) 0 = Inl BufferOverrun" if "length buf < 2 ^ 64 - 1"
  proof -
    from that have "length buf < unat (0 - 1 :: 64 word)"
      by (simp only: unat_zero_minus_one_64)
    from copy_out_overrun [OF this] show ?thesis using rh [of 0] rt [of 0] by simp
  qed
  show ?thesis using ok bad unat_zero_minus_one_64 by blast
qed

theorem q_remove_bufsize_contract_witness:
  "dlist heap2 1 [2, 3] \<and> unat (3 - 1 :: 64 word) = 2 \<and>
   q_remove_head heap2 1 (Some ''zzz'') 3 = Inr (list_del heap2 2, 2, Some [CHR ''h'', CHR ''e'', NUL]) \<and>
   q_remove_tail heap2 1 (Some ''zzz'') 3 = Inr (list_del heap2 3, 3, Some [CHR ''y'', CHR ''o'', NUL]) \<and>
   q_remove_head heap2 1 (Some ''zzz'') 0 = Inl BufferOverrun \<and>
   q_remove_tail heap2 1 (Some ''zzz'') 0 = Inl BufferOverrun"
proof -
  have d: "dlist heap2 1 [2, 3]" by (simp add: dlist_def heap2_def)
  have k: "key heap2 2 = ''hello''" "key heap2 3 = ''yo''" by (simp_all add: key_def heap2_def)
  have c: "copy_out ''hello'' (Some ''zzz'') 3 = Inr (Some [CHR ''h'', CHR ''e'', NUL])"
    "copy_out ''yo'' (Some ''zzz'') 3 = Inr (Some [CHR ''y'', CHR ''o'', NUL])"
    by (simp_all add: copy_out_def strncpy_def store_byte_def)
  have e: "q_remove_head heap2 1 (Some ''zzz'') 3 = Inr (list_del heap2 2, 2, Some [CHR ''h'', CHR ''e'', NUL])"
    "q_remove_tail heap2 1 (Some ''zzz'') 3 = Inr (list_del heap2 3, 3, Some [CHR ''y'', CHR ''o'', NUL])"
    using q_remove_head_nonempty [of heap2 1 2 "[3]"] q_remove_tail_nonempty [of heap2 1 "[2]" 3] d
    by (simp_all add: k c)
  from q_remove_bufsize_contract [OF d, of 3 "''zzz''"] show ?thesis
    using d e by simp
qed

section \<open>Delete middle\<close>

text \<open>
  \<^verbatim>\<open>q_delete_mid\<close>: two pointers walk towards each other, \<open>forward\<close> along \<^verbatim>\<open>next\<close> and
  \<open>backward\<close> along \<^verbatim>\<open>prev\<close>, until they meet.  The loop is a partial function: on a heap
  where the pointers never meet it does not return (\<open>None\<close>).
\<close>

partial_function (option) mid_walk :: "heap \<Rightarrow> ptr \<Rightarrow> ptr \<Rightarrow> ptr option" where
  "mid_walk h forward backward =
     (let forward1 = l_next h forward in
      if forward1 = backward then Some forward1
      else let backward1 = l_prev h backward in
        if forward1 \<noteq> backward1 then mid_walk h forward1 backward1 else Some forward1)"

definition q_delete_mid :: "heap \<Rightarrow> ptr \<Rightarrow> (heap \<times> bool) option" where
  "q_delete_mid h head =
     (if head = NULL \<or> list_empty h head then Some (h, False)
      else case mid_walk h head head of
             None \<Rightarrow> None
           | Some forward \<Rightarrow> Some (q_release_element (list_del h forward) forward, True))"

text \<open>The other copy of \<^verbatim>\<open>queue.c\<close> starts \<open>forward\<close> at the first element and tests first.\<close>

partial_function (option) mid_walk_v0 :: "heap \<Rightarrow> ptr \<Rightarrow> ptr \<Rightarrow> ptr option" where
  "mid_walk_v0 h forward backward =
     (if forward \<noteq> backward then
        let backward1 = l_prev h backward in
        if forward = backward1 then Some forward
        else mid_walk_v0 h (l_next h forward) backward1
      else Some forward)"

definition q_delete_mid_v0 :: "heap \<Rightarrow> ptr \<Rightarrow> (heap \<times> bool) option" where
  "q_delete_mid_v0 h head =
     (if head = NULL \<or> list_empty h head then Some (h, False)
      else case mid_walk_v0 h (l_next h head) head of
             None \<Rightarrow> None
           | Some forward \<Rightarrow> Some (q_release_element (list_del h forward) forward, True))"

lemma path_nth:
  "path f p xs q \<Longrightarrow> i \<le> length xs \<Longrightarrow> f ((p # xs) ! i) = (xs @ [q]) ! i"
proof (induction xs arbitrary: p i)
  case Nil
  then show ?case by simp
next
  case (Cons x xs)
  then show ?case by (cases i) auto
qed

lemma dlist_next_nth:
  assumes "dlist h head xs" "i \<le> length xs"
  shows "l_next h ((head # xs) ! i) = (xs @ [head]) ! i"
  using assms path_nth [of "l_next h" head xs head i] by (simp add: dlist_def)

lemma dlist_prev_nth:
  assumes "dlist h head xs" "i \<le> length xs"
  shows "l_prev h ((xs @ [head]) ! i) = (head # xs) ! i"
proof -
  let ?n = "length xs"
  have p: "path (l_prev h) head (rev xs) head" using assms by (simp add: dlist_def)
  have "l_prev h ((head # rev xs) ! (?n - i)) = (rev xs @ [head]) ! (?n - i)"
    using path_nth [OF p, of "?n - i"] by simp
  moreover have "(head # rev xs) ! (?n - i) = (xs @ [head]) ! i"
    using assms(2) rev_nth [of "?n - i" "xs @ [head]"] by simp
  moreover have "(rev xs @ [head]) ! (?n - i) = (head # xs) ! i"
    using assms(2) rev_nth [of "?n - i" "head # xs"] by simp
  ultimately show ?thesis by simp
qed

lemma dlist_distinct:
  assumes "dlist h head xs"
  shows "distinct (head # xs)" "distinct (xs @ [head])"
  using assms by (auto simp: dlist_def)

lemma mid_walk_dlist:
  assumes d: "dlist h head xs" and ne: "xs \<noteq> []"
  shows "2 * i \<le> length xs \<Longrightarrow>
    mid_walk h ((head # xs) ! i) ((xs @ [head]) ! (length xs - i)) = Some (xs ! (length xs div 2))"
proof (induction "length xs - 2 * i" arbitrary: i rule: less_induct)
  case less
  let ?n = "length xs" and ?c = "head # xs" and ?d = "xs @ [head]"
  from less.prems have i: "i \<le> ?n" by simp
  have nx: "l_next h (?c ! i) = ?d ! i" by (rule dlist_next_nth [OF d i])
  have pv: "l_prev h (?d ! (?n - i)) = ?c ! (?n - i)" by (rule dlist_prev_nth [OF d]) simp
  note dc = dlist_distinct [OF d]
  have eqd: "?d ! i = ?d ! (?n - i) \<longleftrightarrow> i = ?n - i"
    using i by (intro nth_eq_iff_index_eq [OF dc(2)]) simp_all
  show ?case
  proof (cases "2 * i = ?n")
    case True
    moreover from ne have "0 < ?n" by simp
    ultimately have "i = ?n - i" "i < ?n" "?n div 2 = i" by arith+
    then have "?d ! i = ?d ! (?n - i)" "?d ! i = xs ! (?n div 2)"
      using eqd by (simp_all add: nth_append)
    then show ?thesis
      by (subst mid_walk.simps) (simp add: nx Let_def)
  next
    case False
    with less.prems have lt: "2 * i < ?n" by simp
    then have ne1: "?d ! i \<noteq> ?d ! (?n - i)" using eqd by auto
    have di: "?d ! i = ?c ! Suc i" "?d ! i = xs ! i" using lt by (simp_all add: nth_append)
    have eqc: "?c ! Suc i = ?c ! (?n - i) \<longleftrightarrow> Suc i = ?n - i"
      using lt by (intro nth_eq_iff_index_eq [OF dc(1)]) simp_all
    show ?thesis
    proof (cases "?n = 2 * i + 1")
      case True
      then have "Suc i = ?n - i" "?n div 2 = i" by auto
      then have "?d ! i = ?c ! (?n - i)" "?d ! i = xs ! (?n div 2)"
        using di eqc by simp_all
      then show ?thesis
        using ne1 by (subst mid_walk.simps) (simp add: nx pv Let_def)
    next
      case False
      with lt have lt2: "2 * Suc i \<le> ?n" by simp
      have ne2: "?d ! i \<noteq> ?c ! (?n - i)" using di eqc False by auto
      have "?n - i = Suc (?n - Suc i)" "?n - Suc i < ?n" using lt by arith+
      then have b: "?c ! (?n - i) = ?d ! (?n - Suc i)"
        by (simp add: nth_append)
      have "mid_walk h (?c ! Suc i) (?d ! (?n - Suc i)) = Some (xs ! (?n div 2))"
        using lt2 lt by (intro less.hyps) auto
      then show ?thesis
        using ne1 ne2 unfolding b [symmetric] di(1) [symmetric]
        by (subst mid_walk.simps) (simp add: nx pv Let_def)
    qed
  qed
qed

lemma mid_walk_v0_dlist:
  assumes d: "dlist h head xs" and ne: "xs \<noteq> []"
  shows "2 * i \<le> length xs \<Longrightarrow>
    mid_walk_v0 h ((xs @ [head]) ! i) ((xs @ [head]) ! (length xs - i)) = Some (xs ! (length xs div 2))"
proof (induction "length xs - 2 * i" arbitrary: i rule: less_induct)
  case less
  let ?n = "length xs" and ?c = "head # xs" and ?d = "xs @ [head]"
  from less.prems have i: "i \<le> ?n" by simp
  have pv: "l_prev h (?d ! (?n - i)) = ?c ! (?n - i)" by (rule dlist_prev_nth [OF d]) simp
  note dc = dlist_distinct [OF d]
  have eqd: "?d ! i = ?d ! (?n - i) \<longleftrightarrow> i = ?n - i"
    using i by (intro nth_eq_iff_index_eq [OF dc(2)]) simp_all
  show ?case
  proof (cases "2 * i = ?n")
    case True
    moreover from ne have "0 < ?n" by simp
    ultimately have "i = ?n - i" "i < ?n" "?n div 2 = i" by arith+
    then have "?d ! i = ?d ! (?n - i)" "?d ! i = xs ! (?n div 2)"
      using eqd by (simp_all add: nth_append)
    then show ?thesis
      by (subst mid_walk_v0.simps) simp
  next
    case False
    with less.prems have lt: "2 * i < ?n" by simp
    then have ne1: "?d ! i \<noteq> ?d ! (?n - i)" using eqd by auto
    have di: "?d ! i = ?c ! Suc i" "?d ! i = xs ! i" using lt by (simp_all add: nth_append)
    have eqc: "?c ! Suc i = ?c ! (?n - i) \<longleftrightarrow> Suc i = ?n - i"
      using lt by (intro nth_eq_iff_index_eq [OF dc(1)]) simp_all
    show ?thesis
    proof (cases "?n = 2 * i + 1")
      case True
      then have "Suc i = ?n - i" "?n div 2 = i" by auto
      then have "?d ! i = ?c ! (?n - i)" "?d ! i = xs ! (?n div 2)"
        using di eqc by simp_all
      then show ?thesis
        using ne1 by (subst mid_walk_v0.simps) (simp add: pv Let_def)
    next
      case False
      with lt have lt2: "2 * Suc i \<le> ?n" by simp
      have ne2: "?d ! i \<noteq> ?c ! (?n - i)" using di eqc False by auto
      have "?n - i = Suc (?n - Suc i)" "?n - Suc i < ?n" using lt by arith+
      then have b: "?c ! (?n - i) = ?d ! (?n - Suc i)"
        by (simp add: nth_append)
      have nx: "l_next h (?d ! i) = ?d ! Suc i"
        using dlist_next_nth [OF d, of "Suc i"] lt unfolding di(1) by simp
      have "mid_walk_v0 h (?d ! Suc i) (?d ! (?n - Suc i)) = Some (xs ! (?n div 2))"
        using lt2 lt by (intro less.hyps) auto
      then show ?thesis
        using ne1 ne2 unfolding b [symmetric]
        by (subst mid_walk_v0.simps) (simp add: nx pv Let_def)
    qed
  qed
qed

lemma q_release_element_fields [simp]:
  "l_next (q_release_element h e) = l_next h" "l_prev (q_release_element h e) = l_prev h"
  "e_value (q_release_element h e) = e_value h" "c_str (q_release_element h e) = c_str h"
  "key (q_release_element h e) = key h"
  "live (q_release_element h e) = live h - {e, e_value h e}"
  by (auto simp: q_release_element_def free_def key_def fun_eq_iff)

lemma dlist_release [simp]: "dlist (q_release_element h e) head xs = dlist h head xs"
  by (simp add: dlist_def)

lemma queue_delete:
  assumes "queue h head (as @ x # bs)"
  shows "queue (q_release_element (list_del h x) x) head (as @ bs)"
proof -
  let ?g = "q_release_element (list_del h x) x"
  have q: "queue (list_del h x) head (as @ bs)" by (rule queue_list_del [OF assms])
  have n: "x \<notin> set (as @ bs)" "e_value h x \<notin> set (head # as @ bs)" "x \<noteq> head"
    using assms by (auto simp: queue_def dlist_def)
  have m: "e_value h y \<noteq> e_value h x \<and> e_value h y \<noteq> x" if "y \<in> set (as @ bs)" for y
    using assms that by (auto simp: queue_def) (metis imageI)+
  have 1: "dlist ?g head (as @ bs)" using q by (simp add: queue_def)
  have 2: "set (head # as @ bs) \<subseteq> live ?g"
    using q n by (auto simp: queue_def)
  have 3: "set (map (e_value ?g) (as @ bs)) \<subseteq> live ?g"
    using q m by (auto simp: queue_def)
  have 4: "distinct (map (e_value ?g) (as @ bs))"
    "set (map (e_value ?g) (as @ bs)) \<inter> set (head # as @ bs) = {}"
    using q by (simp_all add: queue_def)
  show ?thesis using 1 2 3 4 unfolding queue_def by blast
qed

text \<open>Sentinel 1, elements 2 to 7 with payloads \<^verbatim>\<open>"a"\<close> to \<^verbatim>\<open>"f"\<close> stored at 12 to 17.\<close>

definition heap6 :: heap where
  "heap6 = \<lparr>l_next = (\<lambda>_. NULL)(1 := 2, 2 := 3, 3 := 4, 4 := 5, 5 := 6, 6 := 7, 7 := 1),
     l_prev = (\<lambda>_. NULL)(1 := 7, 2 := 1, 3 := 2, 4 := 3, 5 := 4, 6 := 5, 7 := 6),
     e_value = (\<lambda>_. NULL)(2 := 12, 3 := 13, 4 := 14, 5 := 15, 6 := 16, 7 := 17),
     c_str = (\<lambda>_. [])(12 := ''a'', 13 := ''b'', 14 := ''c'', 15 := ''d'', 16 := ''e'', 17 := ''f''),
     live = {1, 2, 3, 4, 5, 6, 7, 12, 13, 14, 15, 16, 17}\<rparr>"

lemma dlist_heap6: "dlist heap6 1 [2, 3, 4, 5, 6, 7]"
  by (simp add: dlist_def heap6_def)

lemma keys_heap6: "map (key heap6) [2, 3, 4, 5, 6, 7] = [''a'', ''b'', ''c'', ''d'', ''e'', ''f'']"
  by (simp add: key_def heap6_def)

text \<open>
  Claim C5.  On a \<^verbatim>\<open>NULL\<close> handle or an empty list \<^verbatim>\<open>q_delete_mid\<close> returns false and
  leaves the heap as it is.  On a list of \<open>n > 0\<close> elements it returns true after unlinking
  and releasing the element at index \<open>n div 2\<close> (counted from 0): the other elements form
  a well-formed list in their old order, the freed blocks are exactly that element and
  its string, and no string or \<^verbatim>\<open>value\<close> pointer changes.  Both copies of the function
  compute the same heap.
\<close>

theorem q_delete_mid_spec:
  assumes d: "dlist h head xs"
  shows "q_delete_mid g NULL = Some (g, False) \<and> q_delete_mid_v0 g NULL = Some (g, False) \<and>
    (xs = [] \<longrightarrow> q_delete_mid h head = Some (h, False) \<and> q_delete_mid_v0 h head = Some (h, False)) \<and>
    (xs \<noteq> [] \<longrightarrow>
       (let k = length xs div 2; x = xs ! k; h' = q_release_element (list_del h x) x in
          q_delete_mid h head = Some (h', True) \<and> q_delete_mid_v0 h head = Some (h', True) \<and>
          dlist h' head (take k xs @ drop (Suc k) xs) \<and>
          live h' = live h - {x, e_value h x} \<and> c_str h' = c_str h \<and> e_value h' = e_value h \<and>
          (queue h head xs \<longrightarrow> queue h' head (take k xs @ drop (Suc k) xs))))"
proof -
  have absent: "q_delete_mid g NULL = Some (g, False)" "q_delete_mid_v0 g NULL = Some (g, False)"
    by (simp_all add: q_delete_mid_def q_delete_mid_v0_def)
  have empty: "q_delete_mid h head = Some (h, False) \<and> q_delete_mid_v0 h head = Some (h, False)"
    if "xs = []"
    using d that dlist_empty by (simp add: q_delete_mid_def q_delete_mid_v0_def)
  have nonempty: "q_delete_mid h head = Some (q_release_element (list_del h x) x, True) \<and>
      q_delete_mid_v0 h head = Some (q_release_element (list_del h x) x, True) \<and>
      dlist (q_release_element (list_del h x) x) head (take k xs @ drop (Suc k) xs) \<and>
      (queue h head xs \<longrightarrow> queue (q_release_element (list_del h x) x) head (take k xs @ drop (Suc k) xs))"
    if ne: "xs \<noteq> []" and k: "k = length xs div 2" and x: "x = xs ! k" for k x
  proof -
    from ne have "0 < length xs" by simp
    then have kl: "k < length xs" unfolding k by arith
    have split: "xs = take k xs @ x # drop (Suc k) xs"
      unfolding x by (rule id_take_nth_drop [OF kl])
    obtain y ys where c: "xs = y # ys" using ne by (cases xs) auto
    have he: "head \<noteq> NULL" "\<not> list_empty h head" "l_next h head = (xs @ [head]) ! 0"
      using d dlist_first [of h head y ys] c by simp_all
    have w1: "mid_walk h head head = Some x"
      using mid_walk_dlist [OF d ne, of 0] k x by simp
    have w2: "mid_walk_v0 h (l_next h head) head = Some x"
      using mid_walk_v0_dlist [OF d ne, of 0] k x unfolding he(3) by simp
    have "dlist h head (take k xs @ x # drop (Suc k) xs)" using d split by simp
    then have dl: "dlist (list_del h x) head (take k xs @ drop (Suc k) xs)"
      by (rule dlist_list_del)
    have "queue (q_release_element (list_del h x) x) head (take k xs @ drop (Suc k) xs)"
      if "queue h head xs"
      using queue_delete [of h head "take k xs" x "drop (Suc k) xs"] that split by simp
    then show ?thesis
      using he w1 w2 dl by (simp add: q_delete_mid_def q_delete_mid_v0_def)
  qed
  show ?thesis
    using absent empty nonempty by (auto simp: Let_def)
qed

theorem q_delete_mid_spec_witness:
  "dlist heap6 1 [2, 3, 4, 5, 6, 7] \<and>
   map (key heap6) [2, 3, 4, 5, 6, 7] = [''a'', ''b'', ''c'', ''d'', ''e'', ''f''] \<and>
   (\<exists>h'. q_delete_mid heap6 1 = Some (h', True) \<and> q_delete_mid_v0 heap6 1 = Some (h', True) \<and>
      dlist h' 1 [2, 3, 4, 6, 7] \<and>
      map (key h') [2, 3, 4, 6, 7] = [''a'', ''b'', ''c'', ''e'', ''f''] \<and>
      live h' = live heap6 - {5, 15})"
proof -
  have k: "map (key heap6) [2, 3, 4, 6, 7] = [''a'', ''b'', ''c'', ''e'', ''f'']"
    using keys_heap6 by simp
  have v: "e_value heap6 5 = 15" by (simp add: heap6_def)
  from q_delete_mid_spec [OF dlist_heap6, of heap6] show ?thesis
    using dlist_heap6 keys_heap6 k v by (simp add: Let_def)
qed

section \<open>Reversal\<close>

text \<open>
  \<^verbatim>\<open>q_reverse\<close>: a do-while loop that starts at the sentinel and exchanges \<^verbatim>\<open>next\<close> and
  \<^verbatim>\<open>prev\<close> of every node it visits, following the saved old \<^verbatim>\<open>next\<close>.
\<close>

partial_function (option) reverse_loop :: "heap \<Rightarrow> ptr \<Rightarrow> ptr \<Rightarrow> ptr \<Rightarrow> heap option" where
  "reverse_loop h head node nxt =
     (let h1 = set_next node (l_prev h node) h;
          h2 = set_prev node nxt h1;
          node1 = nxt;
          nxt1 = l_next h2 node1
      in if node1 \<noteq> head then reverse_loop h2 head node1 nxt1 else Some h2)"

definition q_reverse :: "heap \<Rightarrow> ptr \<Rightarrow> heap option" where
  "q_reverse h head =
     (if head = NULL \<or> list_empty h head then Some h
      else reverse_loop h head head (l_next h head))"

text \<open>
  The other copy walks the elements with \<^verbatim>\<open>list_for_each_safe\<close> (\<open>safe\<close> is the node
  after \<open>node\<close>, read before the body runs), then exchanges the sentinel's links.
\<close>

partial_function (option) reverse_loop_v0 :: "heap \<Rightarrow> ptr \<Rightarrow> ptr \<Rightarrow> ptr \<Rightarrow> heap option" where
  "reverse_loop_v0 h head node safe =
     (if node \<noteq> head then
        let nxt = l_next h node;
            prv = l_prev h node;
            h1 = set_next node prv h;
            h2 = set_prev node nxt h1
        in reverse_loop_v0 h2 head safe (l_next h2 safe)
      else Some h)"

definition q_reverse_v0 :: "heap \<Rightarrow> ptr \<Rightarrow> heap option" where
  "q_reverse_v0 h head =
     (if head = NULL \<or> list_empty h head then Some h
      else case reverse_loop_v0 h head (l_next h head) (l_next h (l_next h head)) of
             None \<Rightarrow> None
           | Some h1 \<Rightarrow>
               let nxt = l_next h1 head;
                   prv = l_prev h1 head
               in Some (set_prev head nxt (set_next head prv h1)))"

text \<open>\<open>seg f p xs q\<close>: starting at \<open>p\<close> and following \<open>f\<close>, the nodes before \<open>q\<close> are \<open>xs\<close>.\<close>

fun seg :: "(ptr \<Rightarrow> ptr) \<Rightarrow> ptr \<Rightarrow> ptr list \<Rightarrow> ptr \<Rightarrow> bool" where
  "seg f p [] q = (p = q)"
| "seg f p (x # xs) q = (p = x \<and> seg f (f x) xs q)"

text \<open>The heap in which the nodes of \<open>S\<close> have their two links exchanged.\<close>

definition swap_links :: "ptr set \<Rightarrow> heap \<Rightarrow> heap" where
  "swap_links S h =
     h\<lparr>l_next := (\<lambda>p. if p \<in> S then l_prev h p else l_next h p),
       l_prev := (\<lambda>p. if p \<in> S then l_next h p else l_prev h p)\<rparr>"

lemma path_seg: "path f p xs q = seg f (f p) xs q"
  by (induction xs arbitrary: p) auto

lemma seg_upd [simp]: "u \<notin> set xs \<Longrightarrow> seg (f(u := v)) p xs q = seg f p xs q"
  by (induction xs arbitrary: p) auto

lemma swap_links_fields [simp]:
  "l_next (swap_links S h) p = (if p \<in> S then l_prev h p else l_next h p)"
  "l_prev (swap_links S h) p = (if p \<in> S then l_next h p else l_prev h p)"
  "e_value (swap_links S h) = e_value h" "c_str (swap_links S h) = c_str h"
  "live (swap_links S h) = live h" "key (swap_links S h) = key h"
  by (simp_all add: swap_links_def key_def fun_eq_iff)

lemma heap_eqI:
  fixes g h :: heap
  assumes "\<And>p. l_next g p = l_next h p" "\<And>p. l_prev g p = l_prev h p"
    "e_value g = e_value h" "c_str g = c_str h" "live g = live h"
  shows "g = h"
  using assms by (intro heap.equality) (auto simp: fun_eq_iff)

lemma swap_links_empty [simp]: "swap_links {} h = h"
  by (rule heap_eqI) simp_all

lemma swap_links_twice: "swap_links S (swap_links S h) = h"
  by (rule heap_eqI) simp_all

lemma swap_one:
  "set_prev x (l_next h x) (set_next x (l_prev h x) h) = swap_links {x} h"
  by (rule heap_eqI) simp_all

lemma swap_links_insert:
  "x \<notin> S \<Longrightarrow> swap_links S (swap_links {x} h) = swap_links (insert x S) h"
  by (rule heap_eqI) auto

lemma reverse_loop_path:
  "path (l_next g) node ys head \<Longrightarrow> distinct (node # ys) \<Longrightarrow> head \<notin> set ys \<Longrightarrow>
   reverse_loop g head node (l_next g node) = Some (swap_links (set (node # ys)) g)"
proof (induction ys arbitrary: g node)
  case Nil
  then show ?case
    using swap_one [of node g] by (subst reverse_loop.simps) (simp add: Let_def)
next
  case (Cons y ys)
  let ?g = "swap_links {node} g"
  from Cons.prems have y: "l_next g node = y" "y \<noteq> head" "y \<noteq> node" by auto
  have p: "path (l_next ?g) y ys head"
    using Cons.prems by (subst path_cong [of y ys _ "l_next g"]) auto
  have d: "distinct (y # ys)" "head \<notin> set ys" using Cons.prems by auto
  have e1: "l_next ?g y = l_next g y" using y by simp
  have e2: "swap_links (set (y # ys)) ?g = swap_links (set (node # y # ys)) g"
    using Cons.prems by (subst swap_links_insert) auto
  have "reverse_loop g head node (l_next g node) = reverse_loop ?g head y (l_next ?g y)"
    using y swap_one [of node g] by (subst reverse_loop.simps) (simp add: Let_def)
  also have "\<dots> = Some (swap_links (set (y # ys)) ?g)"
    by (rule Cons.IH [OF p d])
  finally show ?case by (simp only: e2)
qed

lemma seg_start: "seg f p xs q \<Longrightarrow> p \<notin> set xs \<Longrightarrow> p = q"
  by (cases xs) auto

lemma reverse_loop_v0_seg:
  "seg (l_next g) node ys head \<Longrightarrow> distinct ys \<Longrightarrow> head \<notin> set ys \<Longrightarrow>
   reverse_loop_v0 g head node (l_next g node) = Some (swap_links (set ys) g)"
proof (induction ys arbitrary: g node)
  case Nil
  then show ?case
    by (subst reverse_loop_v0.simps) simp
next
  case (Cons y ys)
  let ?g = "swap_links {y} g"
  from Cons.prems have y: "node = y" "y \<noteq> head" "y \<notin> set ys" by auto
  have ny: "l_next g y \<noteq> y"
    using seg_start [of "l_next g" "l_next g y" ys head] Cons.prems by auto
  have p: "seg (l_next ?g) (l_next g y) ys head"
    using Cons.prems by (simp add: swap_one [symmetric])
  have d: "distinct ys" "head \<notin> set ys" using Cons.prems by auto
  have e2: "swap_links (set ys) ?g = swap_links (set (y # ys)) g"
    using y by (subst swap_links_insert) auto
  have "reverse_loop_v0 g head node (l_next g node) =
      reverse_loop_v0 ?g head (l_next g y) (l_next ?g (l_next g y))"
    using y by (subst reverse_loop_v0.simps) (simp add: Let_def swap_one)
  also have "\<dots> = Some (swap_links (set ys) ?g)"
    by (rule Cons.IH [OF p d])
  finally show ?case by (simp only: e2)
qed

lemma dlist_swap_links:
  assumes "dlist h head xs"
  shows "dlist (swap_links (set (head # xs)) h) head (rev xs)"
proof -
  let ?g = "swap_links (set (head # xs)) h"
  have "path (l_next ?g) head (rev xs) head = path (l_prev h) head (rev xs) head"
    by (rule path_cong) auto
  moreover have "path (l_prev ?g) head xs head = path (l_next h) head xs head"
    by (rule path_cong) auto
  ultimately show ?thesis using assms by (simp add: dlist_def)
qed

lemma swap_links_union:
  "S \<inter> T = {} \<Longrightarrow> swap_links S (swap_links T h) = swap_links (S \<union> T) h"
  by (rule heap_eqI) auto

lemma swap_links_fixed:
  assumes "\<And>p. p \<in> S \<Longrightarrow> l_next h p = l_prev h p"
  shows "swap_links S h = h"
  using assms by (intro heap_eqI) auto

lemma q_reverse_dlist:
  assumes d: "dlist h head xs"
  shows "q_reverse h head = Some (swap_links (set (head # xs)) h)"
    and "q_reverse_v0 h head = Some (swap_links (set (head # xs)) h)"
proof -
  let ?S = "set (head # xs)"
  have hd: "head \<noteq> NULL" "head \<notin> set xs" "distinct xs" "distinct (head # xs)"
    and p: "path (l_next h) head xs head" using d by (auto simp: dlist_def)
  show "q_reverse h head = Some (swap_links ?S h)"
  proof (cases xs)
    case Nil
    then have "l_next h head = head" "l_prev h head = head" using d by (auto simp: dlist_def)
    then have "swap_links ?S h = h" using Nil by (intro swap_links_fixed) auto
    then show ?thesis using Nil d dlist_empty by (simp add: q_reverse_def)
  next
    case (Cons y ys)
    then have "\<not> list_empty h head" using d dlist_first(5) by blast
    then show ?thesis
      using hd(1) reverse_loop_path [OF p hd(4) hd(2)] by (simp add: q_reverse_def)
  qed
  show "q_reverse_v0 h head = Some (swap_links ?S h)"
  proof (cases xs)
    case Nil
    then have "l_next h head = head" "l_prev h head = head" using d by (auto simp: dlist_def)
    then have "swap_links ?S h = h" using Nil by (intro swap_links_fixed) auto
    then show ?thesis using Nil d dlist_empty by (simp add: q_reverse_v0_def)
  next
    case (Cons y ys)
    then have ne: "\<not> list_empty h head" using d dlist_first(5) by blast
    let ?h1 = "swap_links (set xs) h"
    have s: "seg (l_next h) (l_next h head) xs head" using p by (simp add: path_seg)
    have l: "reverse_loop_v0 h head (l_next h head) (l_next h (l_next h head)) = Some ?h1"
      by (rule reverse_loop_v0_seg [OF s hd(3) hd(2)])
    have "set_prev head (l_next ?h1 head) (set_next head (l_prev ?h1 head) ?h1) =
        swap_links {head} ?h1" by (rule swap_one)
    also have "\<dots> = swap_links ({head} \<union> set xs) h"
      using hd(2) by (intro swap_links_union) simp
    finally show ?thesis
      using ne hd(1) l by (simp add: q_reverse_v0_def Let_def del: swap_links_fields)
  qed
qed

text \<open>
  Claim C9.  On a well-formed list \<^verbatim>\<open>q_reverse\<close> returns a heap in which exactly the
  sentinel and the elements have \<^verbatim>\<open>next\<close> and \<^verbatim>\<open>prev\<close> exchanged, every other link and
  field being what it was: the elements are linked in the reverse order, nothing is
  allocated or freed, and an empty list is left as it is.  Reversing the result again
  gives back the very heap the first call started from.  A \<^verbatim>\<open>NULL\<close> handle is a no-op.
  Both copies of the function compute the same heap.
\<close>

theorem q_reverse_involution:
  assumes d: "dlist h head xs"
  shows "q_reverse g NULL = Some g \<and> q_reverse_v0 g NULL = Some g \<and>
     (\<exists>h'. q_reverse h head = Some h' \<and> q_reverse_v0 h head = Some h' \<and>
           dlist h' head (rev xs) \<and> (xs = [] \<longrightarrow> h' = h) \<and>
           (\<forall>p. l_next h' p = (if p \<in> set (head # xs) then l_prev h p else l_next h p) \<and>
                l_prev h' p = (if p \<in> set (head # xs) then l_next h p else l_prev h p)) \<and>
           e_value h' = e_value h \<and> c_str h' = c_str h \<and> live h' = live h \<and>
           q_reverse h' head = Some h \<and> q_reverse_v0 h' head = Some h)"
proof -
  let ?h' = "swap_links (set (head # xs)) h"
  have d': "dlist ?h' head (rev xs)" by (rule dlist_swap_links [OF d])
  have again: "swap_links (set (head # rev xs)) ?h' = h"
    using swap_links_twice [of "set (head # xs)" h] by simp
  have e: "?h' = h" if "xs = []"
  proof -
    from that have "l_next h head = head" "l_prev h head = head" using d by (auto simp: dlist_def)
    then show ?thesis using that by (intro swap_links_fixed) auto
  qed
  have "q_reverse g NULL = Some g" "q_reverse_v0 g NULL = Some g"
    by (simp_all add: q_reverse_def q_reverse_v0_def)
  moreover have "q_reverse ?h' head = Some h" "q_reverse_v0 ?h' head = Some h"
    using q_reverse_dlist [OF d'] by (simp_all only: again)
  ultimately show ?thesis
    using q_reverse_dlist [OF d] d' e by (intro conjI exI [of _ ?h']) simp_all
qed

theorem q_reverse_involution_witness:
  "dlist heap6 1 [2, 3, 4, 5, 6, 7] \<and>
   (\<exists>h'. q_reverse heap6 1 = Some h' \<and> q_reverse_v0 heap6 1 = Some h' \<and>
      dlist h' 1 [7, 6, 5, 4, 3, 2] \<and> l_next h' 1 = 7 \<and> l_prev h' 1 = 2 \<and> l_next h' 5 = 4 \<and>
      map (key h') [7, 6, 5, 4, 3, 2] = [''f'', ''e'', ''d'', ''c'', ''b'', ''a''] \<and>
      q_reverse h' 1 = Some heap6 \<and> q_reverse_v0 h' 1 = Some heap6)"
proof -
  have k: "map (key heap6) [7, 6, 5, 4, 3, 2] = [''f'', ''e'', ''d'', ''c'', ''b'', ''a'']"
    using keys_heap6 by simp
  have l: "l_prev heap6 1 = 7" "l_next heap6 1 = 2" "l_prev heap6 5 = 4"
    by (simp_all add: heap6_def)
  from q_reverse_involution [OF dlist_heap6, of heap6] obtain h' where
    h': "q_reverse heap6 1 = Some h'" "q_reverse_v0 heap6 1 = Some h'"
      "dlist h' 1 (rev [2, 3, 4, 5, 6, 7])"
      "\<forall>p. l_next h' p = (if p \<in> set [1, 2, 3, 4, 5, 6, 7] then l_prev heap6 p else l_next heap6 p) \<and>
           l_prev h' p = (if p \<in> set [1, 2, 3, 4, 5, 6, 7] then l_next heap6 p else l_prev heap6 p)"
      "e_value h' = e_value heap6" "c_str h' = c_str heap6"
      "q_reverse h' 1 = Some heap6" "q_reverse_v0 h' 1 = Some heap6"
    by auto
  have "key h' = key heap6" using h'(5,6) by (simp add: key_def fun_eq_iff)
  moreover have "l_next h' 1 = 7" "l_prev h' 1 = 2" "l_next h' 5 = 4" using h'(4) l by simp_all
  ultimately show ?thesis
    using dlist_heap6 h'(1,2,3,7,8) k by simp
qed

section \<open>Pairwise swap\<close>

text \<open>
  \<^verbatim>\<open>q_swap\<close>.  \<open>swap_step h node\<close> is the body of the \<^verbatim>\<open>for\<close> loop: it moves \<open>node\<close> behind
  its successor by rewriting six links.
\<close>

definition swap_step :: "heap \<Rightarrow> ptr \<Rightarrow> heap" where
  "swap_step h node =
     (let nxt = l_next h node;
          h1 = set_next (l_prev h node) nxt h;
          h2 = set_prev (l_next h1 nxt) node h1;
          h3 = set_next node (l_next h2 nxt) h2;
          h4 = set_next nxt node h3;
          h5 = set_prev nxt (l_prev h4 node) h4
      in set_prev node nxt h5)"

partial_function (option) swap_loop :: "heap \<Rightarrow> ptr \<Rightarrow> ptr \<Rightarrow> heap option" where
  "swap_loop h head node =
     (if node \<noteq> head \<and> l_next h node \<noteq> head then
        let h1 = swap_step h node in swap_loop h1 head (l_next h1 node)
      else Some h)"

definition q_swap :: "heap \<Rightarrow> ptr \<Rightarrow> heap option" where
  "q_swap h head =
     (if head = NULL \<or> list_empty h head then Some h
      else swap_loop h head (l_next h head))"

text \<open>
  The other copy visits every node and, on every second one (\<open>toggle\<close> set), moves it in
  front of its predecessor; \<open>swap_step_v0 h node\<close> is that branch, after which \<open>node\<close>
  is the predecessor.
\<close>

definition swap_step_v0 :: "heap \<Rightarrow> ptr \<Rightarrow> heap" where
  "swap_step_v0 h node =
     (let prv = l_prev h node;
          h1 = set_next prv (l_next h node) h;
          h2 = set_prev node (l_prev h1 prv) h1;
          h3 = set_prev (l_next h2 node) prv h2;
          h4 = set_next (l_prev h3 prv) node h3;
          h5 = set_prev prv node h4
      in set_next node prv h5)"

partial_function (option) swap_loop_v0 :: "heap \<Rightarrow> ptr \<Rightarrow> ptr \<Rightarrow> int \<Rightarrow> heap option" where
  "swap_loop_v0 h head node toggle =
     (if node \<noteq> head then
        let h1 = (if toggle \<noteq> 0 then swap_step_v0 h node else h);
            node1 = (if toggle \<noteq> 0 then l_prev h node else node);
            toggle1 = (if toggle = 0 then 1 else 0)
        in swap_loop_v0 h1 head (l_next h1 node1) toggle1
      else Some h)"

definition q_swap_v0 :: "heap \<Rightarrow> ptr \<Rightarrow> heap option" where
  "q_swap_v0 h head =
     (if head = NULL \<or> list_empty h head then Some h
      else swap_loop_v0 h head (l_next h head) 0)"

text \<open>The order of the elements after the swap.\<close>

fun swap_pairs :: "'a list \<Rightarrow> 'a list" where
  "swap_pairs (x # y # zs) = y # x # swap_pairs zs"
| "swap_pairs xs = xs"

lemma set_swap_pairs [simp]: "set (swap_pairs xs) = set xs"
  by (induction xs rule: swap_pairs.induct) auto

lemma distinct_swap_pairs [simp]: "distinct (swap_pairs xs) = distinct xs"
  by (induction xs rule: swap_pairs.induct) auto

lemma length_swap_pairs [simp]: "length (swap_pairs xs) = length xs"
  by (induction xs rule: swap_pairs.induct) auto

lemma swap_step_links:
  assumes "l_next g x = y" "l_prev g x = p" "l_next g y = s"
    and "x \<noteq> y" "p \<noteq> y" "s \<noteq> x"
  shows "l_next (swap_step g x) = (l_next g)(p := y, x := s, y := x)"
    and "l_prev (swap_step g x) = (l_prev g)(s := x, y := p, x := y)"
    and "e_value (swap_step g x) = e_value g" "c_str (swap_step g x) = c_str g"
    and "live (swap_step g x) = live g"
  using assms by (auto simp: swap_step_def Let_def fun_eq_iff)

lemma swap_step_v0_links:
  assumes "l_next g x = y" "l_prev g x = p" "l_next g y = s" "l_prev g y = x"
    and "x \<noteq> y" "p \<noteq> y" "s \<noteq> x" "p \<noteq> x" "s \<noteq> y"
  shows "swap_step_v0 g y = swap_step g x"
  using assms by (intro heap.equality) (auto simp: swap_step_v0_def swap_step_def Let_def fun_eq_iff)

lemma path_last_upd:
  "path f a ws b \<Longrightarrow> distinct (a # ws) \<Longrightarrow> path (f(last (a # ws) := c)) a ws c"
  by (induction ws arbitrary: a) auto

lemma path_next_hd: "path f p xs q \<Longrightarrow> f p = hd (xs @ [q])"
  by (cases xs) auto

lemma last_rev_hd: "last (a # rev zs) = hd (zs @ [a])"
  by (cases zs) auto

lemma swap_loop_seg:
  assumes "path (l_next g) p xs head" "path (l_prev g) head (rev xs) p"
    "distinct xs" "p \<notin> set xs" "head \<notin> set xs"
  shows "\<exists>g'. swap_loop g head (l_next g p) = Some g' \<and>
      swap_loop_v0 g head (l_next g p) 0 = Some g' \<and>
      path (l_next g') p (swap_pairs xs) head \<and> path (l_prev g') head (rev (swap_pairs xs)) p \<and>
      (\<forall>q. q \<notin> set (p # xs) \<longrightarrow> l_next g' q = l_next g q) \<and>
      (\<forall>q. q \<notin> set (head # xs) \<longrightarrow> l_prev g' q = l_prev g q) \<and>
      e_value g' = e_value g \<and> c_str g' = c_str g \<and> live g' = live g"
  using assms
proof (induction xs arbitrary: g p rule: swap_pairs.induct [case_names pair nil single])
  case (pair x y zs)
  let ?s = "l_next g y"
  let ?g6 = "swap_step g x"
  from pair.prems have nx: "l_next g p = x" "l_next g x = y" and pz: "path (l_next g) y zs head"
    by auto
  from pair.prems(2) have pv: "l_prev g y = x" "l_prev g x = p"
    and pr: "path (l_prev g) head (rev zs) y"
    by (auto simp: path_append)
  from pair.prems have ds: "x \<noteq> y" "x \<notin> set zs" "y \<notin> set zs" "distinct zs" "p \<noteq> x" "p \<noteq> y"
    "p \<notin> set zs" "x \<noteq> head" "y \<noteq> head" "head \<notin> set zs" by auto
  have s: "?s = hd (zs @ [head])" by (rule path_next_hd [OF pz])
  then have s_in: "?s \<in> set (head # zs)" by (cases zs) auto
  with ds have sn: "?s \<noteq> x" "?s \<noteq> y" by auto
  note l = swap_step_links [OF nx(2) pv(2) refl ds(1) ds(6) sn(1)]
  have eq0: "swap_step_v0 g y = ?g6"
    by (rule swap_step_v0_links [OF nx(2) pv(2) refl pv(1) ds(1) ds(6) sn(1) ds(5) sn(2)])
  have nx6: "l_next ?g6 x = ?s" using ds by (simp add: l)
  have "seg (l_next ?g6) ?s zs head"
    using pz ds by (simp add: l path_seg)
  then have p1: "path (l_next ?g6) x zs head"
    by (simp only: path_seg nx6)
  have "path ((l_prev g)(last (head # rev zs) := x)) head (rev zs) x"
    using pr ds by (intro path_last_upd) auto
  then have p2: "path (l_prev ?g6) head (rev zs) x"
    using ds by (simp add: l last_rev_hd s del: last.simps)
  from pair.IH [OF p1 p2 ds(4) ds(2) ds(10)] obtain g' where
    g': "swap_loop ?g6 head (l_next ?g6 x) = Some g'"
      "swap_loop_v0 ?g6 head (l_next ?g6 x) 0 = Some g'"
      "path (l_next g') x (swap_pairs zs) head"
      "path (l_prev g') head (rev (swap_pairs zs)) x"
      "\<And>q. q \<notin> set (x # zs) \<Longrightarrow> l_next g' q = l_next ?g6 q"
      "\<And>q. q \<notin> set (head # zs) \<Longrightarrow> l_prev g' q = l_prev ?g6 q"
      "e_value g' = e_value ?g6" "c_str g' = c_str ?g6" "live g' = live ?g6"
    by blast
  have r1: "swap_loop g head (l_next g p) = Some g'"
    unfolding nx(1) using ds nx(2) g'(1) by (subst swap_loop.simps) (simp add: Let_def)
  have "swap_loop_v0 g head x 0 = swap_loop_v0 g head y 1"
    using ds nx(2) by (subst swap_loop_v0.simps) (simp add: Let_def)
  also have "\<dots> = swap_loop_v0 ?g6 head (l_next ?g6 x) 0"
    using ds pv(1) eq0 by (subst swap_loop_v0.simps) (simp add: Let_def)
  finally have r2: "swap_loop_v0 g head (l_next g p) 0 = Some g'"
    unfolding nx(1) using g'(2) by simp
  have a: "l_next g' p = y" "l_next g' y = x" "l_prev g' x = y" "l_prev g' y = p"
    using ds sn g'(5) [of p] g'(5) [of y] g'(6) [of x] g'(6) [of y] by (simp_all add: l)
  have r3: "path (l_next g') p (swap_pairs (x # y # zs)) head"
    using a g'(3) by simp
  have r4: "path (l_prev g') head (rev (swap_pairs (x # y # zs))) p"
    using a g'(4) by (simp add: path_append)
  have r5: "l_next g' q = l_next g q" if "q \<notin> set (p # x # y # zs)" for q
    using that g'(5) [of q] by (simp add: l)
  have r6: "l_prev g' q = l_prev g q" if "q \<notin> set (head # x # y # zs)" for q
  proof -
    from that s_in have "q \<noteq> ?s" by auto
    then show ?thesis using that g'(6) [of q] by (simp add: l)
  qed
  show ?case
    using r1 r2 r3 r4 r5 r6 g'(7,8,9) l(3,4,5) by (intro exI [of _ g']) simp
next
  case nil
  then have "l_next g p = head" by simp
  then have "swap_loop g head (l_next g p) = Some g" "swap_loop_v0 g head (l_next g p) 0 = Some g"
    by (simp_all add: swap_loop.simps swap_loop_v0.simps)
  then show ?case using nil by (intro exI [of _ g]) simp
next
  case (single v)
  then have n: "l_next g p = v" "l_next g v = head" "v \<noteq> head" by auto
  have 1: "swap_loop g head v = Some g"
    using n by (subst swap_loop.simps) simp
  have "swap_loop_v0 g head v 0 = swap_loop_v0 g head head 1"
    using n by (subst swap_loop_v0.simps) (simp add: Let_def)
  also have "\<dots> = Some g" by (subst swap_loop_v0.simps) simp
  finally show ?case using 1 single n by (intro exI [of _ g]) simp
qed

text \<open>Sentinel 1, elements 2 to 6 with payloads \<^verbatim>\<open>"1"\<close> to \<^verbatim>\<open>"5"\<close> stored at 12 to 16.\<close>

definition heap5 :: heap where
  "heap5 = \<lparr>l_next = (\<lambda>_. NULL)(1 := 2, 2 := 3, 3 := 4, 4 := 5, 5 := 6, 6 := 1),
     l_prev = (\<lambda>_. NULL)(1 := 6, 2 := 1, 3 := 2, 4 := 3, 5 := 4, 6 := 5),
     e_value = (\<lambda>_. NULL)(2 := 12, 3 := 13, 4 := 14, 5 := 15, 6 := 16),
     c_str = (\<lambda>_. [])(12 := ''1'', 13 := ''2'', 14 := ''3'', 15 := ''4'', 16 := ''5''),
     live = {1, 2, 3, 4, 5, 6, 12, 13, 14, 15, 16}\<rparr>"

lemma dlist_heap5: "dlist heap5 1 [2, 3, 4, 5, 6]"
  by (simp add: dlist_def heap5_def)

lemma keys_heap5: "map (key heap5) [2, 3, 4, 5, 6] = [''1'', ''2'', ''3'', ''4'', ''5'']"
  by (simp add: key_def heap5_def)

text \<open>
  Claim C8.  On a well-formed list \<^verbatim>\<open>q_swap\<close> returns a heap in which the same nodes are
  linked in the order \<open>swap_pairs xs\<close>: each adjacent pair, counted from the front, has
  exchanged positions and a final unpaired element stays last.  Only links of the
  sentinel and the elements change; every element keeps its \<^verbatim>\<open>value\<close> pointer and string
  (the nodes move, the payloads do not), nothing is allocated or freed.  An empty list,
  or a \<^verbatim>\<open>NULL\<close> handle, is left as it is.  Both copies of the function compute the same
  heap.
\<close>

theorem q_swap_spec:
  assumes d: "dlist h head xs"
  shows "q_swap g NULL = Some g \<and> q_swap_v0 g NULL = Some g \<and>
    (\<exists>h'. q_swap h head = Some h' \<and> q_swap_v0 h head = Some h' \<and>
        dlist h' head (swap_pairs xs) \<and> (xs = [] \<longrightarrow> h' = h) \<and>
        e_value h' = e_value h \<and> c_str h' = c_str h \<and> live h' = live h \<and>
        (\<forall>q. q \<notin> set (head # xs) \<longrightarrow> l_next h' q = l_next h q \<and> l_prev h' q = l_prev h q))"
proof -
  have absent: "q_swap g NULL = Some g" "q_swap_v0 g NULL = Some g"
    by (simp_all add: q_swap_def q_swap_v0_def)
  have hd: "head \<noteq> NULL" "head \<notin> set xs" "distinct xs" "NULL \<notin> set xs"
    and p: "path (l_next h) head xs head" "path (l_prev h) head (rev xs) head"
    using d by (auto simp: dlist_def)
  show ?thesis
  proof (cases "xs = []")
    case True
    then have "list_empty h head" using d dlist_empty by simp
    then have "q_swap h head = Some h" "q_swap_v0 h head = Some h"
      by (simp_all add: q_swap_def q_swap_v0_def)
    then show ?thesis using absent d True by simp
  next
    case False
    then obtain y ys where "xs = y # ys" by (cases xs) auto
    then have ne: "\<not> list_empty h head" using d dlist_first(5) by blast
    from swap_loop_seg [OF p hd(3) hd(2) hd(2)] obtain g' where
      g': "swap_loop h head (l_next h head) = Some g'"
        "swap_loop_v0 h head (l_next h head) 0 = Some g'"
        "path (l_next g') head (swap_pairs xs) head"
        "path (l_prev g') head (rev (swap_pairs xs)) head"
        "\<forall>q. q \<notin> set (head # xs) \<longrightarrow> l_next g' q = l_next h q"
        "\<forall>q. q \<notin> set (head # xs) \<longrightarrow> l_prev g' q = l_prev h q"
        "e_value g' = e_value h" "c_str g' = c_str h" "live g' = live h"
      by blast
    have 1: "q_swap h head = Some g'" "q_swap_v0 h head = Some g'"
      using ne hd(1) g'(1,2) by (simp_all add: q_swap_def q_swap_v0_def)
    have 2: "dlist g' head (swap_pairs xs)"
      using hd g'(3,4) by (simp add: dlist_def)
    show ?thesis
      using absent 1 2 g'(5-9) False by (intro conjI exI [of _ g']) simp_all
  qed
qed

theorem q_swap_spec_witness:
  "dlist heap5 1 [2, 3, 4, 5, 6] \<and>
   map (key heap5) [2, 3, 4, 5, 6] = [''1'', ''2'', ''3'', ''4'', ''5''] \<and>
   (\<exists>h'. q_swap heap5 1 = Some h' \<and> q_swap_v0 heap5 1 = Some h' \<and>
      dlist h' 1 [3, 2, 5, 4, 6] \<and>
      map (key h') [3, 2, 5, 4, 6] = [''2'', ''1'', ''4'', ''3'', ''5''])"
proof -
  have k: "map (key heap5) [3, 2, 5, 4, 6] = [''2'', ''1'', ''4'', ''3'', ''5'']"
    using keys_heap5 by simp
  from q_swap_spec [OF dlist_heap5, of heap5] obtain h' where
    h': "q_swap heap5 1 = Some h'" "q_swap_v0 heap5 1 = Some h'"
      "dlist h' 1 (swap_pairs [2, 3, 4, 5, 6])"
      "e_value h' = e_value heap5" "c_str h' = c_str heap5"
    by auto
  have "key h' = key heap5" using h'(4,5) by (simp add: key_def fun_eq_iff)
  then show ?thesis
    using dlist_heap5 keys_heap5 k h'(1,2,3) by simp
qed

section \<open>Delete duplicates\<close>

text \<open>
  \<^verbatim>\<open>q_delete_dup\<close>.  \<^verbatim>\<open>list_for_each_entry_safe\<close> walks \<open>entry\<close> over the elements, \<open>safe\<close>
  being the node after \<open>entry\<close>, read before the body runs.
\<close>

partial_function (option) dup_loop ::
    "heap \<Rightarrow> ptr \<Rightarrow> ptr \<Rightarrow> ptr \<Rightarrow> bool \<Rightarrow> ptr \<Rightarrow> heap option" where
  "dup_loop h head entry safe is_dup prev =
     (if entry \<noteq> head then
        if safe \<noteq> head \<and> strcmp (key h entry) (key h safe) = 0 then
          let h1 = q_release_element h entry
          in dup_loop h1 head safe (l_next h1 safe) True prev
        else if is_dup then
          let h1 = q_release_element h entry;
              h2 = set_next prev safe h1;
              h3 = set_prev safe prev h2
          in dup_loop h3 head safe (l_next h3 safe) False prev
        else dup_loop h head safe (l_next h safe) is_dup (l_next h prev)
      else Some h)"

definition q_delete_dup :: "heap \<Rightarrow> ptr \<Rightarrow> (heap \<times> bool) option" where
  "q_delete_dup h head =
     (if head = NULL then Some (h, False)
      else case dup_loop h head (l_next h head) (l_next h (l_next h head)) False head of
             None \<Rightarrow> None
           | Some h1 \<Rightarrow> Some (h1, True))"

text \<open>
  The other copy compares each node with its predecessor; an inner loop runs to the end
  of a run of equal strings, releasing the elements behind it, and the outer loop
  splices the run out.
\<close>

partial_function (option) dup_run_v0 ::
    "heap \<Rightarrow> ptr \<Rightarrow> ptr \<Rightarrow> ptr \<Rightarrow> ptr \<Rightarrow> (heap \<times> ptr \<times> ptr) option" where
  "dup_run_v0 h head node element prev_element =
     (if node \<noteq> head \<and> strcmp (key h element) (key h prev_element) = 0 then
        let node1 = l_next h node;
            h1 = q_release_element h prev_element
        in dup_run_v0 h1 head node1 node1 element
      else Some (h, node, prev_element))"

partial_function (option) dup_loop_v0 :: "heap \<Rightarrow> ptr \<Rightarrow> ptr \<Rightarrow> ptr \<Rightarrow> heap option" where
  "dup_loop_v0 h head node prev =
     (if node \<noteq> head then
        let element = node;
            prev_element = l_prev h node
        in if strcmp (key h element) (key h prev_element) = 0 then
             (case dup_run_v0 h head node element prev_element of
                None \<Rightarrow> None
              | Some (h1, node1, prev_element1) \<Rightarrow>
                  let h2 = q_release_element h1 prev_element1;
                      h3 = set_next prev node1 h2;
                      h4 = set_prev node1 prev h3
                  in dup_loop_v0 h4 head (if node1 \<noteq> head then l_next h4 node1 else node1) prev)
           else dup_loop_v0 h head (l_next h node) (l_next h prev)
      else Some h)"

definition q_delete_dup_v0 :: "heap \<Rightarrow> ptr \<Rightarrow> (heap \<times> bool) option" where
  "q_delete_dup_v0 h head =
     (if head = NULL then Some (h, False)
      else case dup_loop_v0 h head (l_next h (l_next h head)) head of
             None \<Rightarrow> None
           | Some h1 \<Rightarrow> Some (h1, True))"

text \<open>
  What is left of a list when every element that equals a neighbour is dropped;
  \<open>is_dup\<close> says that the element before the list equals its first element.
\<close>

fun dedup :: "('a \<Rightarrow> 'a \<Rightarrow> bool) \<Rightarrow> bool \<Rightarrow> 'a list \<Rightarrow> 'a list" where
  "dedup eq is_dup [] = []"
| "dedup eq is_dup (x # ys) =
     (if ys \<noteq> [] \<and> eq x (hd ys) then dedup eq True ys
      else if is_dup then dedup eq False ys
      else x # dedup eq False ys)"

text \<open>Two elements have equal payloads, as \<^verbatim>\<open>strcmp\<close> sees them.\<close>

definition same_key :: "heap \<Rightarrow> ptr \<Rightarrow> ptr \<Rightarrow> bool" where
  "same_key h x y = (strcmp (key h x) (key h y) = 0)"

lemma set_dedup: "set (dedup eq d xs) \<subseteq> set xs"
  by (induction xs arbitrary: d) auto

lemma distinct_dedup: "distinct xs \<Longrightarrow> distinct (dedup eq d xs)"
proof (induction xs arbitrary: d)
  case Nil
  then show ?case by simp
next
  case (Cons x xs)
  then show ?case using set_dedup [of eq False xs] by auto
qed

lemma seg_next_hd: "seg f p xs q \<Longrightarrow> p = hd (xs @ [q])"
  by (cases xs) auto

lemma seg_tail: "seg f p (x # xs) q \<Longrightarrow> seg f (f x) xs q"
  by simp

text \<open>
  \<open>relinked g g' p head ys R\<close>: the heap \<open>g'\<close> links, in both directions, the nodes \<open>R\<close>
  between \<open>p\<close> and the sentinel; apart from that it differs from \<open>g\<close> only in links of
  \<open>p\<close>, \<open>head\<close> and \<open>ys\<close>, and in that the nodes of \<open>ys\<close> missing from \<open>R\<close> have been
  released together with their strings.
\<close>

definition relinked :: "heap \<Rightarrow> heap \<Rightarrow> ptr \<Rightarrow> ptr \<Rightarrow> ptr list \<Rightarrow> ptr list \<Rightarrow> bool" where
  "relinked g g' p head ys R =
     (path (l_next g') p R head \<and> path (l_prev g') head (rev R) p \<and>
      (\<forall>q. q \<notin> set (p # ys) \<longrightarrow> l_next g' q = l_next g q) \<and>
      (\<forall>q. q \<notin> set (head # ys) \<longrightarrow> l_prev g' q = l_prev g q) \<and>
      e_value g' = e_value g \<and> c_str g' = c_str g \<and>
      live g' = live g - ((set ys - set R) \<union> e_value g ` (set ys - set R)))"

lemma relinkedD:
  assumes "relinked g g' p head ys R"
  shows "path (l_next g') p R head" "path (l_prev g') head (rev R) p"
    "\<And>q. q \<notin> set (p # ys) \<Longrightarrow> l_next g' q = l_next g q"
    "\<And>q. q \<notin> set (head # ys) \<Longrightarrow> l_prev g' q = l_prev g q"
    "e_value g' = e_value g" "c_str g' = c_str g"
    "live g' = live g - ((set ys - set R) \<union> e_value g ` (set ys - set R))"
  using assms by (simp_all add: relinked_def)

lemma same_key_cong:
  "e_value g' = e_value g \<Longrightarrow> c_str g' = c_str g \<Longrightarrow> same_key g' = same_key g"
  by (simp add: same_key_def key_def fun_eq_iff)

lemma same_key_release [simp]: "same_key (q_release_element h e) = same_key h"
  by (rule same_key_cong) simp_all

lemma same_key_set_next [simp]: "same_key (set_next p q h) = same_key h"
  by (rule same_key_cong) simp_all

lemma same_key_set_prev [simp]: "same_key (set_prev p q h) = same_key h"
  by (rule same_key_cong) simp_all

lemma dup_loop_seg:
  assumes "seg (l_next g) e ys head" "path (l_prev g) head (rev ys) r"
    "distinct ys" "head \<notin> set ys" "p \<notin> set ys"
    "is_dup \<longrightarrow> ys \<noteq> []" "\<not> is_dup \<longrightarrow> r = p \<and> l_next g p = e"
  shows "\<exists>g'. dup_loop g head e (l_next g e) is_dup p = Some g' \<and>
           relinked g g' p head ys (dedup (same_key g) is_dup ys)"
  using assms
proof (induction ys arbitrary: g e r is_dup p)
  case Nil
  then have "e = head" "\<not> is_dup" "l_next g p = head" "l_prev g head = p" by auto
  then show ?case
    by (subst dup_loop.simps) (simp add: relinked_def)
next
  case (Cons x ys)
  let ?safe = "l_next g x"
  let ?R = "dedup (same_key g) is_dup (x # ys)"
  from Cons.prems have e: "e = x" and sg: "seg (l_next g) ?safe ys head"
    and pr: "path (l_prev g) head (rev ys) x" and px: "l_prev g x = r"
    and ds: "distinct ys" "x \<notin> set ys" "head \<notin> set ys" "x \<noteq> head" "p \<notin> set ys" "p \<noteq> x"
    by (auto simp: path_append)
  have safe: "?safe = hd (ys @ [head])" by (rule seg_next_hd [OF sg])
  then have safe_in: "?safe \<in> set (head # ys)" by (cases ys) auto
  have safe_head: "?safe \<noteq> head \<longleftrightarrow> ys \<noteq> []" using safe ds by (cases ys) auto
  have safe_x: "?safe \<noteq> x" using safe_in ds by auto
  have cond: "(?safe \<noteq> head \<and> strcmp (key g x) (key g ?safe) = 0) \<longleftrightarrow>
      (ys \<noteq> [] \<and> same_key g x (hd ys))"
    using safe safe_head by (cases ys) (auto simp: same_key_def)
  show ?case
  proof (cases "ys \<noteq> [] \<and> same_key g x (hd ys)")
    case True
    let ?g1 = "q_release_element g x"
    have R: "?R = dedup (same_key g) True ys" using True by simp
    have "\<exists>g'. dup_loop ?g1 head ?safe (l_next ?g1 ?safe) True p = Some g' \<and>
           relinked ?g1 g' p head ys (dedup (same_key ?g1) True ys)"
      using sg pr ds True by (intro Cons.IH [where r = x]) simp_all
    then obtain g' where g': "dup_loop ?g1 head ?safe (l_next ?g1 ?safe) True p = Some g'"
      "relinked ?g1 g' p head ys (dedup (same_key g) True ys)" by auto
    have 1: "dup_loop g head e (l_next g e) is_dup p = Some g'"
      unfolding e using cond True ds g'(1) by (subst dup_loop.simps) (simp add: Let_def)
    note r = relinkedD [OF g'(2)]
    have xR: "x \<notin> set (dedup (same_key g) True ys)" using set_dedup [of "same_key g" True ys] ds by auto
    have 2: "relinked g g' p head (x # ys) ?R"
      unfolding R relinked_def
    proof (intro conjI allI impI)
      show "live g' = live g - ((set (x # ys) - set (dedup (same_key g) True ys)) \<union>
          e_value g ` (set (x # ys) - set (dedup (same_key g) True ys)))"
        using r(7) xR by (auto simp: insert_Diff_if)
    qed (use r in auto)
    show ?thesis using 1 2 by blast
  next
    case False
    note nodup = False
    show ?thesis
    proof (cases is_dup)
      case True
      let ?g1 = "q_release_element g x"
      let ?g3 = "set_prev ?safe p (set_next p ?safe ?g1)"
      have R: "?R = dedup (same_key g) False ys" using True nodup by auto
      have p1: "seg (l_next ?g3) ?safe ys head" using sg ds by simp
      have "path ((l_prev g)(last (head # rev ys) := p)) head (rev ys) p"
        using pr ds by (intro path_last_upd) auto
      then have p2: "path (l_prev ?g3) head (rev ys) p"
        by (simp add: last_rev_hd safe del: last.simps)
      have p3: "l_next ?g3 p = l_next g x" by simp
      have "\<exists>g'. dup_loop ?g3 head ?safe (l_next ?g3 ?safe) False p = Some g' \<and>
           relinked ?g3 g' p head ys (dedup (same_key ?g3) False ys)"
        by (rule Cons.IH [OF p1 p2 ds(1) ds(3) ds(5)]) (simp_all add: p3)
      then obtain g' where g': "dup_loop ?g3 head ?safe (l_next ?g3 ?safe) False p = Some g'"
        "relinked ?g3 g' p head ys (dedup (same_key g) False ys)" by auto
      have "dup_loop g head x (l_next g x) is_dup p =
          dup_loop ?g3 head ?safe (l_next ?g3 ?safe) False p"
        by (subst dup_loop.simps) (simp only: cond nodup True ds(4) Let_def if_True if_False simp_thms)
      then have 1: "dup_loop g head e (l_next g e) is_dup p = Some g'"
        unfolding e using g'(1) by simp
      note r = relinkedD [OF g'(2)]
      have xR: "x \<notin> set (dedup (same_key g) False ys)"
        using set_dedup [of "same_key g" False ys] ds by auto
      have 2: "relinked g g' p head (x # ys) ?R"
        unfolding R relinked_def
      proof (intro conjI allI impI)
        show "live g' = live g - ((set (x # ys) - set (dedup (same_key g) False ys)) \<union>
            e_value g ` (set (x # ys) - set (dedup (same_key g) False ys)))"
          using r(7) xR by (auto simp: insert_Diff_if)
        show "l_prev g' q = l_prev g q" if "q \<notin> set (head # x # ys)" for q
        proof -
          from that safe_in have "q \<noteq> ?safe" by auto
          then show ?thesis using that r(4) [of q] by simp
        qed
      qed (use r in auto)
      show ?thesis using 1 2 by blast
    next
      case False
      with Cons.prems have rp: "r = p" "l_next g p = x" by (auto simp: e)
      have R: "?R = x # dedup (same_key g) False ys" using False nodup by auto
      have "\<exists>g'. dup_loop g head ?safe (l_next g ?safe) False x = Some g' \<and>
           relinked g g' x head ys (dedup (same_key g) False ys)"
        using sg pr ds by (intro Cons.IH [where r = x]) simp_all
      then obtain g' where g': "dup_loop g head ?safe (l_next g ?safe) False x = Some g'"
        "relinked g g' x head ys (dedup (same_key g) False ys)" by auto
      have "dup_loop g head x (l_next g x) is_dup p =
          dup_loop g head ?safe (l_next g ?safe) is_dup (l_next g p)"
        by (subst dup_loop.simps) (simp only: cond nodup False ds(4) Let_def if_True if_False simp_thms)
      then have 1: "dup_loop g head e (l_next g e) is_dup p = Some g'"
        unfolding e using g'(1) rp False by simp
      note r = relinkedD [OF g'(2)]
      have xR: "x \<notin> set (dedup (same_key g) False ys)"
        using set_dedup [of "same_key g" False ys] ds by auto
      have a: "l_next g' p = x" "l_prev g' x = p"
        using r(3) [of p] r(4) [of x] ds rp px by auto
      have 2: "relinked g g' p head (x # ys) ?R"
        unfolding R relinked_def
      proof (intro conjI allI impI)
        show "live g' = live g - ((set (x # ys) - set (x # dedup (same_key g) False ys)) \<union>
            e_value g ` (set (x # ys) - set (x # dedup (same_key g) False ys)))"
          using r(7) xR ds by (auto simp: insert_Diff_if)
        show "path (l_next g') p (x # dedup (same_key g) False ys) head"
          using a r(1) by simp
        show "path (l_prev g') head (rev (x # dedup (same_key g) False ys)) p"
          using a r(2) by (simp add: path_append)
      qed (use r in auto)
      show ?thesis using 1 2 by blast
    qed
  qed
qed

lemma strcmp_neg: "strcmp b a = - strcmp a b"
  by (induction a b rule: strcmp.induct) auto

lemma strcmp_eq0_sym: "strcmp b a = 0 \<longleftrightarrow> strcmp a b = 0"
  using strcmp_neg [of b a] by simp

lemma same_key_sym: "same_key h x y = same_key h y x"
  by (simp add: same_key_def strcmp_eq0_sym)

lemma seg_append: "seg f p (as @ bs) q = (seg f p as (hd (bs @ [q])) \<and> seg f (hd (bs @ [q])) bs q)"
  by (induction as arbitrary: p) (auto dest: seg_next_hd)

lemma dup_run_v0_seg:
  assumes "seg (l_next g) node ys head" "head \<notin> set ys"
  shows "\<exists>g1 run rest. ys = run @ rest \<and>
      dup_run_v0 g head node node pe = Some (g1, hd (rest @ [head]), last (pe # run)) \<and>
      dedup (same_key g) True (pe # ys) = dedup (same_key g) False rest \<and>
      l_next g1 = l_next g \<and> l_prev g1 = l_prev g \<and> e_value g1 = e_value g \<and> c_str g1 = c_str g \<and>
      live g1 = live g - (set (butlast (pe # run)) \<union> e_value g ` set (butlast (pe # run))) \<and>
      (ys \<noteq> [] \<and> same_key g pe (hd ys) \<longrightarrow> run \<noteq> [])"
  using assms
proof (induction ys arbitrary: g node pe)
  case Nil
  then have "node = head" by simp
  then have "dup_run_v0 g head node node pe = Some (g, head, pe)"
    by (subst dup_run_v0.simps) simp
  then show ?case
    by (intro exI [of _ g] exI [of _ "[]"]) simp
next
  case (Cons y ys)
  then have n: "node = y" "y \<noteq> head" and sg: "seg (l_next g) (l_next g y) ys head"
    and hd: "head \<notin> set ys" by auto
  show ?case
  proof (cases "same_key g pe y")
    case True
    let ?g1 = "q_release_element g pe"
    have sg1: "seg (l_next ?g1) (l_next g y) ys head" using sg by simp
    from Cons.IH [OF sg1 hd, of y] obtain g1 run rest where
      ih: "ys = run @ rest"
        "dup_run_v0 ?g1 head (l_next g y) (l_next g y) y = Some (g1, hd (rest @ [head]), last (y # run))"
        "dedup (same_key ?g1) True (y # ys) = dedup (same_key ?g1) False rest"
        "l_next g1 = l_next ?g1" "l_prev g1 = l_prev ?g1" "e_value g1 = e_value ?g1"
        "c_str g1 = c_str ?g1"
        "live g1 = live ?g1 - (set (butlast (y # run)) \<union> e_value ?g1 ` set (butlast (y # run)))"
      by blast
    have "dup_run_v0 g head node node pe = dup_run_v0 ?g1 head (l_next g y) (l_next g y) y"
      using True n by (subst dup_run_v0.simps) (simp add: Let_def same_key_def strcmp_eq0_sym)
    then have 1: "dup_run_v0 g head node node pe =
        Some (g1, hd (rest @ [head]), last (pe # y # run))"
      using ih(2) by simp
    have 2: "dedup (same_key g) True (pe # y # ys) = dedup (same_key g) False rest"
      using True ih(3) by simp
    have 3: "live g1 = live g - (set (butlast (pe # y # run)) \<union>
        e_value g ` set (butlast (pe # y # run)))"
      using ih(8) by auto
    show ?thesis
      using ih(1,4,5,6,7) 1 2 3 True
      by (intro exI [of _ g1] exI [of _ "y # run"] exI [of _ rest]) simp
  next
    case False
    have "dup_run_v0 g head node node pe = Some (g, node, pe)"
      using False n by (subst dup_run_v0.simps) (simp add: same_key_def strcmp_eq0_sym)
    then show ?thesis
      using False n
      by (intro exI [of _ g] exI [of _ "[]"] exI [of _ "y # ys"]) simp
  qed
qed

lemma dup_loop_v0_seg:
  assumes "l_next g p = c" "l_prev g c = p" "seg (l_next g) (l_next g c) ys head"
    "path (l_prev g) head (rev ys) c" "distinct (c # ys)" "head \<notin> set (c # ys)"
    "p \<notin> set (c # ys)"
  shows "\<exists>g'. dup_loop_v0 g head (l_next g c) p = Some g' \<and>
           relinked g g' p head (c # ys) (dedup (same_key g) False (c # ys))"
  using assms
proof (induction "length ys" arbitrary: g p c ys rule: less_induct)
  case less
  let ?eq = "same_key g"
  let ?node = "l_next g c"
  note pc = less.prems(1) and cp = less.prems(2) and sg = less.prems(3)
    and pr = less.prems(4)
  from less.prems have ds: "distinct ys" "c \<notin> set ys" "head \<notin> set ys" "c \<noteq> head"
    "p \<notin> set ys" "p \<noteq> c" by auto
  have node: "?node = hd (ys @ [head])" by (rule seg_next_hd [OF sg])
  show ?case
  proof (cases ys)
    case Nil
    then have "?node = head" "l_prev g head = c" using node pr by auto
    then show ?thesis
      using Nil pc cp by (subst dup_loop_v0.simps) (simp add: relinked_def)
  next
    case (Cons y ys')
    then have ny: "?node = y" "y \<noteq> head" "y \<noteq> c" "y \<notin> set ys'" "y \<noteq> p"
      using node ds by auto
    have py: "l_prev g y = c" and pr': "path (l_prev g) head (rev ys') y"
      using pr Cons by (auto simp: path_append)
    have sg': "seg (l_next g) (l_next g y) ys' head" using sg Cons by simp
    have test: "strcmp (key g y) (key g (l_prev g y)) = 0 \<longleftrightarrow> ?eq c y"
      by (simp add: py same_key_def strcmp_eq0_sym)
    show ?thesis
    proof (cases "?eq c y")
      case False
      have "\<exists>g'. dup_loop_v0 g head (l_next g y) c = Some g' \<and>
           relinked g g' c head (y # ys') (dedup ?eq False (y # ys'))"
        using ds Cons ny by (intro less.hyps [OF _ ny(1) py sg' pr']) auto
      then obtain g' where g': "dup_loop_v0 g head (l_next g y) c = Some g'"
        "relinked g g' c head (y # ys') (dedup ?eq False (y # ys'))" by blast
      have "dup_loop_v0 g head ?node p = dup_loop_v0 g head (l_next g y) (l_next g p)"
        unfolding ny(1)
        by (subst dup_loop_v0.simps) (simp only: test False ny(2) Let_def if_True if_False simp_thms)
      then have 1: "dup_loop_v0 g head ?node p = Some g'" using g'(1) pc by simp
      note r = relinkedD [OF g'(2)]
      have R: "dedup ?eq False (c # ys) = c # dedup ?eq False (y # ys')"
        using False Cons by simp
      have cR: "c \<notin> set (dedup ?eq False (y # ys'))"
        using set_dedup [of ?eq False "y # ys'"] ds Cons by auto
      have a: "l_next g' p = c" "l_prev g' c = p"
        using r(3) [of p] r(4) [of c] ds ny pc cp Cons by auto
      have 2: "relinked g g' p head (c # ys) (dedup ?eq False (c # ys))"
        unfolding R unfolding relinked_def Cons
      proof (intro conjI allI impI)
        show "live g' = live g - ((set (c # y # ys') - set (c # dedup ?eq False (y # ys'))) \<union>
            e_value g ` (set (c # y # ys') - set (c # dedup ?eq False (y # ys'))))"
          using r(7) cR ds Cons by (auto simp: insert_Diff_if)
        show "path (l_next g') p (c # dedup ?eq False (y # ys')) head"
          using a r(1) by simp
        show "path (l_prev g') head (rev (c # dedup ?eq False (y # ys'))) p"
          using a r(2) by (simp add: path_append)
      qed (use r in auto)
      show ?thesis using 1 2 by blast
    next
      case True
      from dup_run_v0_seg [OF sg ds(3), of c]
      obtain g1 run rest where
        irc: "ys = run @ rest \<and>
          dup_run_v0 g head ?node ?node c = Some (g1, hd (rest @ [head]), last (c # run)) \<and>
          dedup ?eq True (c # ys) = dedup ?eq False rest \<and>
          l_next g1 = l_next g \<and> l_prev g1 = l_prev g \<and> e_value g1 = e_value g \<and>
          c_str g1 = c_str g \<and>
          live g1 = live g - (set (butlast (c # run)) \<union> e_value g ` set (butlast (c # run))) \<and>
          (ys \<noteq> [] \<and> ?eq c (hd ys) \<longrightarrow> run \<noteq> [])"
        by (elim exE) (rule that)
      then have
        ir: "ys = run @ rest"
          "dup_run_v0 g head ?node ?node c = Some (g1, hd (rest @ [head]), last (c # run))"
          "dedup ?eq True (c # ys) = dedup ?eq False rest"
          "l_next g1 = l_next g" "l_prev g1 = l_prev g" "e_value g1 = e_value g" "c_str g1 = c_str g"
          "live g1 = live g - (set (butlast (c # run)) \<union> e_value g ` set (butlast (c # run)))"
          "ys \<noteq> [] \<and> ?eq c (hd ys) \<longrightarrow> run \<noteq> []"
        by blast+
      have run: "run \<noteq> []" using ir(9) True Cons by simp
      let ?n1 = "hd (rest @ [head])"
      let ?pe = "last (c # run)"
      let ?h2 = "q_release_element g1 ?pe"
      let ?h4 = "set_prev ?n1 p (set_next p ?n1 ?h2)"
      have R: "dedup ?eq False (c # ys) = dedup ?eq False rest"
        using ir(3) True Cons by simp
      have rel: "live ?h2 = live g - (set (c # run) \<union> e_value g ` set (c # run))"
      proof -
        have "set (c # run) = insert ?pe (set (butlast (c # run)))"
          by (metis append_butlast_last_id list.distinct(1) list.simps(15) rotate1.simps(2) set_rotate1)
        then show ?thesis using ir(6,8) by auto
      qed
      have n1_in: "?n1 \<in> set (head # rest)" by (cases rest) auto
      have dr: "distinct rest" "set rest \<subseteq> set ys" "set run \<inter> set rest = {}" "c \<notin> set rest"
        "p \<notin> set rest" "head \<notin> set rest"
        using ds ir(1) by auto
      have step: "dup_loop_v0 g head ?node p =
          dup_loop_v0 ?h4 head (if ?n1 \<noteq> head then l_next ?h4 ?n1 else ?n1) p"
        unfolding ny(1)
        by (subst dup_loop_v0.simps)
          (simp only: test [unfolded py] True ny(2) py ir(2) [unfolded ny(1)] Let_def if_True
            if_False simp_thms option.case prod.case)
      have fr: "l_next ?h4 = (l_next g)(p := ?n1)" "l_prev ?h4 = (l_prev g)(?n1 := p)"
        "e_value ?h4 = e_value g" "c_str ?h4 = c_str g" "live ?h4 = live ?h2"
        using ir(4,5,6,7) by simp_all
      show ?thesis
      proof (cases rest)
        case Nil
        then have n1: "?n1 = head" by simp
        have 1: "dup_loop_v0 g head ?node p = Some ?h4"
          unfolding step by (subst dup_loop_v0.simps) (simp add: n1)
        have ys_run: "ys = run" using ir(1) Nil by simp
        have 2: "relinked g ?h4 p head (c # ys) (dedup ?eq False (c # ys))"
          unfolding R relinked_def Nil
          using fr rel n1 ys_run by (simp add: ir(4,5,6,7))
        show ?thesis using 1 2 by blast
      next
        case (Cons c' rest')
        then have n1: "?n1 = c'" by simp
        have c': "c' \<noteq> head" "c' \<noteq> p" "c' \<notin> set rest'" "c' \<noteq> c" "c' \<in> set ys"
          using dr Cons ir(1) by auto
        have a1: "l_next ?h4 p = c'" "l_prev ?h4 c' = p" by (simp_all add: fr ir(4,5,6,7) n1)
        have nx: "l_next ?h4 c' = l_next g c'" using c' by (simp add: fr ir(4,5,6,7) n1)
        have "seg (l_next g) ?node (run @ c' # rest') head" using sg ir(1) Cons by simp
        then have "seg (l_next g) (l_next g c') rest' head"
          by (simp add: seg_append)
        then have a3: "seg (l_next ?h4) (l_next ?h4 c') rest' head"
          using dr Cons by (simp add: nx) (simp add: fr ir(4,5,6,7))
        have "path (l_prev g) head (rev rest' @ c' # rev run) c" using pr ir(1) Cons by simp
        then have "path (l_prev g) head (rev rest') c'" by (simp add: path_append)
        then have a4: "path (l_prev ?h4) head (rev rest') c'"
          using c' by (simp add: fr ir(4,5,6,7) n1)
        have a5: "distinct (c' # rest')" "head \<notin> set (c' # rest')" "p \<notin> set (c' # rest')"
          using dr Cons by auto
        have len: "length rest' < length ys" using ir(1) Cons by simp
        from less.hyps [OF len a1 a3 a4 a5] obtain g' where
          g': "dup_loop_v0 ?h4 head (l_next ?h4 c') p = Some g'"
            "relinked ?h4 g' p head (c' # rest') (dedup (same_key ?h4) False (c' # rest'))"
          by blast
        have sk: "same_key ?h4 = ?eq" by (rule same_key_cong [OF fr(3,4)])
        have 1: "dup_loop_v0 g head ?node p = Some g'"
          unfolding step using g'(1) c' by (simp only: n1 if_True simp_thms)
        note r = relinkedD [OF g'(2) [unfolded sk]]
        have Rs: "set (dedup ?eq False (c' # rest')) \<subseteq> set (c' # rest')" by (rule set_dedup)
        have 2: "relinked g g' p head (c # ys) (dedup ?eq False (c # ys))"
          unfolding R relinked_def Cons
        proof (intro conjI allI impI)
          show "path (l_next g') p (dedup ?eq False (c' # rest')) head" by (rule r(1))
          show "path (l_prev g') head (rev (dedup ?eq False (c' # rest'))) p" by (rule r(2))
          show "l_next g' q = l_next g q" if "q \<notin> set (p # c # ys)" for q
            using that r(3) [of q] ir(1) Cons by (simp add: fr ir(4,5,6,7))
          show "l_prev g' q = l_prev g q" if "q \<notin> set (head # c # ys)" for q
            using that r(4) [of q] ir(1) Cons by (auto simp: fr ir(4,5,6,7) n1)
          show "e_value g' = e_value g" "c_str g' = c_str g" using r(5,6) fr by (simp_all add: ir(4,5,6,7))
          have "set (c # ys) - set (dedup ?eq False (c' # rest')) =
              set (c # run) \<union> (set (c' # rest') - set (dedup ?eq False (c' # rest')))"
            using Rs dr ir(1) Cons by auto
          then show "live g' = live g - ((set (c # ys) - set (dedup ?eq False (c' # rest'))) \<union>
              e_value g ` (set (c # ys) - set (dedup ?eq False (c' # rest'))))"
            using r(7) rel fr by (simp only: image_Un) auto
        qed
        show ?thesis using 1 2 by blast
      qed
    qed
  qed
qed

subsection \<open>\<^verbatim>\<open>strcmp\<close> is a total preorder\<close>

lemma of_char_nonneg: "(0::int) \<le> of_char c"
  by (simp add: of_char_def)

lemma of_char_zero_iff: "(of_char c :: int) = 0 \<longleftrightarrow> c = NUL"
  using of_char_eq_iff [of c NUL, where ?'a = int] by simp

lemma strcmp_refl [simp]: "strcmp a a = 0"
  by (induction a) auto

lemma strcmp_total: "strcmp a b \<le> 0 \<or> strcmp b a \<le> 0"
  using strcmp_neg [of b a] by linarith

lemma strcmp_eq0_iff: "strcmp a b = 0 \<longleftrightarrow> strcmp a b \<le> 0 \<and> strcmp b a \<le> 0"
  using strcmp_neg [of b a] by linarith

lemma strcmp_trans: "strcmp a b \<le> 0 \<Longrightarrow> strcmp b c \<le> 0 \<Longrightarrow> strcmp a c \<le> 0"
proof (induction a arbitrary: b c)
  case Nil
  then show ?case by (cases c) (simp_all add: of_char_nonneg)
next
  case (Cons x a)
  show ?case
  proof (cases b)
    case Nil
    with Cons.prems have "x = NUL"
      using of_char_nonneg [of x] by (simp add: of_char_zero_iff [symmetric])
    then show ?thesis
      by (cases c) (simp_all add: of_char_nonneg)
  next
    case b: (Cons y b')
    show ?thesis
    proof (cases c)
      case Nil
      with b Cons.prems have "y = NUL"
        using of_char_nonneg [of y] by (simp add: of_char_zero_iff [symmetric])
      with b Cons.prems Nil show ?thesis
        by (auto split: if_splits simp: of_char_zero_iff)
    next
      case c: (Cons z c')
      have inj: "\<And>u v::char. (of_char u :: int) = of_char v \<longleftrightarrow> u = v" by simp
      show ?thesis
        using Cons.prems Cons.IH [of b' c'] b c
        by (auto split: if_splits simp: inj [symmetric] simp del: of_char_eq_iff)
    qed
  qed
qed

text \<open>The order of the payloads: \<^verbatim>\<open>strcmp(x, y) <= 0\<close>.\<close>

definition key_le :: "heap \<Rightarrow> ptr \<Rightarrow> ptr \<Rightarrow> bool" where
  "key_le h x y = (strcmp (key h x) (key h y) \<le> 0)"

lemma key_le_trans: "key_le h x y \<Longrightarrow> key_le h y z \<Longrightarrow> key_le h x z"
  unfolding key_le_def by (rule strcmp_trans)

lemma key_le_total: "key_le h x y \<or> key_le h y x"
  unfolding key_le_def by (rule strcmp_total)

lemma same_key_iff: "same_key h x y \<longleftrightarrow> key_le h x y \<and> key_le h y x"
  unfolding key_le_def same_key_def by (rule strcmp_eq0_iff)

lemma same_key_refl [simp]: "same_key h x x"
  by (simp add: same_key_def)

lemma same_key_trans: "same_key h x y \<Longrightarrow> same_key h y z \<Longrightarrow> same_key h x z"
  by (meson key_le_trans same_key_iff)

text \<open>How many elements of \<open>xs\<close> carry the payload of \<open>z\<close>.\<close>

definition occurrences :: "heap \<Rightarrow> ptr list \<Rightarrow> ptr \<Rightarrow> nat" where
  "occurrences h xs z = length (filter (same_key h z) xs)"

lemma occurrences_Cons:
  "occurrences h (x # xs) z = (if same_key h z x then Suc (occurrences h xs z) else occurrences h xs z)"
  by (simp add: occurrences_def)

lemma occurrences_pos: "y \<in> set xs \<Longrightarrow> same_key h z y \<Longrightarrow> 0 < occurrences h xs z"
  by (induction xs) (auto simp: occurrences_Cons)

lemma sorted_no_later_equal:
  assumes "sorted_wrt (key_le h) (x # xs)" "\<not> (xs \<noteq> [] \<and> same_key h x (hd xs))" "y \<in> set xs"
  shows "\<not> same_key h x y"
proof
  assume e: "same_key h x y"
  from assms obtain z zs where xs: "xs = z # zs" by (cases xs) auto
  with assms have nz: "\<not> same_key h x z" and xz: "key_le h x z" by auto
  have "key_le h z y"
  proof (cases "y = z")
    case True
    then show ?thesis using key_le_total [of h z z] by auto
  next
    case False
    then show ?thesis using assms xs by auto
  qed
  moreover have "key_le h y x" using e by (simp add: same_key_iff)
  ultimately have "key_le h z x" by (rule key_le_trans)
  with xz nz show False by (simp add: same_key_iff)
qed

lemma dedup_sorted:
  "sorted_wrt (key_le h) xs \<Longrightarrow>
   dedup (same_key h) d xs =
     filter (\<lambda>z. occurrences h xs z = 1 \<and> (d \<longrightarrow> \<not> same_key h (hd xs) z)) xs"
proof (induction xs arbitrary: d)
  case Nil
  then show ?case by simp
next
  case (Cons x xs)
  then have s: "sorted_wrt (key_le h) xs" by simp
  show ?case
  proof (cases "xs \<noteq> [] \<and> same_key h x (hd xs)")
    case True
    then have hx: "hd xs \<in> set xs" by simp
    have x2: "occurrences h (x # xs) x \<noteq> 1"
      using occurrences_pos [OF hx, of h x] True by (simp add: occurrences_Cons)
    have "filter (\<lambda>z. occurrences h xs z = 1 \<and> \<not> same_key h (hd xs) z) xs =
        filter (\<lambda>z. occurrences h (x # xs) z = 1 \<and> (d \<longrightarrow> \<not> same_key h x z)) xs"
    proof (rule filter_cong [OF refl])
      fix z assume z: "z \<in> set xs"
      show "(occurrences h xs z = 1 \<and> \<not> same_key h (hd xs) z) =
          (occurrences h (x # xs) z = 1 \<and> (d \<longrightarrow> \<not> same_key h x z))"
      proof (cases "same_key h z x")
        case zx: True
        then have "same_key h (hd xs) z"
          using True same_key_trans same_key_sym by blast
        moreover have "0 < occurrences h xs z"
          using occurrences_pos [OF z, of h z] by simp
        ultimately show ?thesis using zx by (simp add: occurrences_Cons)
      next
        case zx: False
        then have "\<not> same_key h (hd xs) z" "\<not> same_key h x z"
          using True same_key_trans same_key_sym by blast+
        then show ?thesis using zx by (simp add: occurrences_Cons)
      qed
    qed
    then show ?thesis
      using True x2 Cons.IH [OF s, of True] by simp
  next
    case False
    have ne: "\<not> same_key h x z" "\<not> same_key h z x" if "z \<in> set xs" for z
      using sorted_no_later_equal [OF Cons.prems False that] same_key_sym by blast+
    have x1: "occurrences h (x # xs) x = 1"
    proof -
      have "filter (same_key h x) xs = []" using ne by (auto simp: filter_empty_conv)
      then show ?thesis by (simp add: occurrences_def)
    qed
    have "filter (\<lambda>z. occurrences h xs z = 1 \<and> (False \<longrightarrow> \<not> same_key h (hd xs) z)) xs =
        filter (\<lambda>z. occurrences h (x # xs) z = 1 \<and> (d \<longrightarrow> \<not> same_key h x z)) xs"
      by (rule filter_cong [OF refl]) (simp add: ne occurrences_Cons)
    then show ?thesis
      using False x1 Cons.IH [OF s, of False] by auto
  qed
qed

lemma relinked_dlist:
  assumes r: "relinked h h' head head xs R" and d: "dlist h head xs"
    and s: "set R \<subseteq> set xs" "distinct R"
  shows "dlist h' head R" "xs = [] \<Longrightarrow> h' = h"
proof -
  note rd = relinkedD [OF r]
  show "dlist h' head R"
    using d s rd(1,2) by (auto simp: dlist_def)
  show "h' = h" if "xs = []"
  proof (rule heap_eqI)
    from that s have R: "R = []" by simp
    have hh: "l_next h head = head" "l_prev h head = head" using d that by (auto simp: dlist_def)
    show "l_next h' p = l_next h p" for p
      using rd(1) rd(3) [of p] R hh that by (cases "p = head") auto
    show "l_prev h' p = l_prev h p" for p
      using rd(2) rd(4) [of p] R hh that by (cases "p = head") auto
    show "e_value h' = e_value h" "c_str h' = c_str h" by (rule rd(5), rule rd(6))
    show "live h' = live h" using rd(7) that by simp
  qed
qed

lemma q_delete_dup_dlist:
  assumes d: "dlist h head xs"
  shows "\<exists>h'. q_delete_dup h head = Some (h', True) \<and>
           relinked h h' head head xs (dedup (same_key h) False xs)"
proof -
  have hd: "head \<noteq> NULL" "head \<notin> set xs" "distinct xs"
    and p: "path (l_next h) head xs head" "path (l_prev h) head (rev xs) head"
    using d by (auto simp: dlist_def)
  have s: "seg (l_next h) (l_next h head) xs head" using p(1) by (simp add: path_seg)
  from dup_loop_seg [OF s p(2) hd(3) hd(2) hd(2), of False] obtain g' where
    "dup_loop h head (l_next h head) (l_next h (l_next h head)) False head = Some g'"
    "relinked h g' head head xs (dedup (same_key h) False xs)" by auto
  then show ?thesis using hd(1) by (simp add: q_delete_dup_def)
qed

lemma q_delete_dup_v0_dlist:
  assumes d: "dlist h head xs"
  shows "\<exists>h'. q_delete_dup_v0 h head = Some (h', True) \<and>
           relinked h h' head head xs (dedup (same_key h) False xs)"
proof (cases xs)
  case Nil
  then have "l_next h head = head" "l_prev h head = head" using d by (auto simp: dlist_def)
  moreover have "dup_loop_v0 h head head head = Some h"
    by (subst dup_loop_v0.simps) simp
  ultimately show ?thesis
    using d Nil by (simp add: q_delete_dup_v0_def dlist_def relinked_def)
next
  case (Cons c ys)
  have hd: "head \<noteq> NULL" "head \<notin> set xs" "distinct xs"
    and p: "path (l_next h) head xs head" "path (l_prev h) head (rev xs) head"
    using d by (auto simp: dlist_def)
  have a: "l_next h head = c" "l_prev h c = head" "path (l_prev h) head (rev ys) c"
    using p Cons by (auto simp: path_append)
  have s: "seg (l_next h) (l_next h c) ys head" using p(1) Cons by (simp add: path_seg)
  have b: "distinct (c # ys)" "head \<notin> set (c # ys)" using hd Cons by auto
  from dup_loop_v0_seg [OF a(1,2) s a(3) b b(2)] obtain g' where
    "dup_loop_v0 h head (l_next h c) head = Some g'"
    "relinked h g' head head (c # ys) (dedup (same_key h) False (c # ys))" by auto
  then show ?thesis using hd(1) a(1) Cons by (simp add: q_delete_dup_v0_def)
qed

text \<open>
  Sentinel 1, elements 2 to 7 with payloads \<^verbatim>\<open>"1", "1", "2", "3", "3", "3"\<close> stored at
  12 to 17.
\<close>

definition heap_dup :: heap where
  "heap_dup = \<lparr>l_next = (\<lambda>_. NULL)(1 := 2, 2 := 3, 3 := 4, 4 := 5, 5 := 6, 6 := 7, 7 := 1),
     l_prev = (\<lambda>_. NULL)(1 := 7, 2 := 1, 3 := 2, 4 := 3, 5 := 4, 6 := 5, 7 := 6),
     e_value = (\<lambda>_. NULL)(2 := 12, 3 := 13, 4 := 14, 5 := 15, 6 := 16, 7 := 17),
     c_str = (\<lambda>_. [])(12 := ''1'', 13 := ''1'', 14 := ''2'', 15 := ''3'', 16 := ''3'', 17 := ''3''),
     live = {1, 2, 3, 4, 5, 6, 7, 12, 13, 14, 15, 16, 17}\<rparr>"

text \<open>
  Claim C4.  On a \<^verbatim>\<open>NULL\<close> handle \<^verbatim>\<open>q_delete_dup\<close> returns false and leaves the heap as
  it is.  On a well-formed list whose payloads are in ascending \<^verbatim>\<open>strcmp\<close> order it
  returns true, and the elements left, in their old order, are exactly those whose
  payload occurs once in the list, which are also exactly those with no equal
  neighbour (\<open>dedup\<close>); they form a well-formed list, every other element has been
  released with its string, no string or \<^verbatim>\<open>value\<close> pointer changes, and an empty list
  gives back the very same heap.  This holds for both copies of the function.
\<close>

theorem q_delete_dup_spec:
  assumes d: "dlist h head xs" and s: "sorted_wrt (key_le h) xs"
  shows "q_delete_dup g NULL = Some (g, False) \<and> q_delete_dup_v0 g NULL = Some (g, False) \<and>
    (let R = filter (\<lambda>z. occurrences h xs z = 1) xs;
         D = set xs - set R;
         post = (\<lambda>h'. dlist h' head R \<and> R = dedup (same_key h) False xs \<and>
                   e_value h' = e_value h \<and> c_str h' = c_str h \<and>
                   live h' = live h - (D \<union> e_value h ` D) \<and> (xs = [] \<longrightarrow> h' = h))
     in (\<exists>h'. q_delete_dup h head = Some (h', True) \<and> post h') \<and>
        (\<exists>h'. q_delete_dup_v0 h head = Some (h', True) \<and> post h'))"
proof -
  let ?R = "dedup (same_key h) False xs"
  have R: "?R = filter (\<lambda>z. occurrences h xs z = 1) xs"
    using dedup_sorted [OF s, of False] by simp
  have sR: "set ?R \<subseteq> set xs" by (rule set_dedup)
  have dR: "distinct ?R" using d by (intro distinct_dedup) (simp add: dlist_def)
  have post: "dlist h' head ?R \<and> e_value h' = e_value h \<and> c_str h' = c_str h \<and>
      live h' = live h - ((set xs - set ?R) \<union> e_value h ` (set xs - set ?R)) \<and>
      (xs = [] \<longrightarrow> h' = h)"
    if "relinked h h' head head xs ?R" for h'
    using relinked_dlist [OF that d sR dR] relinkedD(5,6,7) [OF that] by simp
  have absent: "q_delete_dup g NULL = Some (g, False)" "q_delete_dup_v0 g NULL = Some (g, False)"
    by (simp_all add: q_delete_dup_def q_delete_dup_v0_def)
  from q_delete_dup_dlist [OF d] obtain h1 where
    h1: "q_delete_dup h head = Some (h1, True)" "relinked h h1 head head xs ?R" by blast
  from q_delete_dup_v0_dlist [OF d] obtain h2 where
    h2: "q_delete_dup_v0 h head = Some (h2, True)" "relinked h h2 head head xs ?R" by blast
  show ?thesis
    using absent h1(1) h2(1) post [OF h1(2)] post [OF h2(2)]
    unfolding Let_def R [symmetric] by simp
qed

theorem q_delete_dup_spec_witness:
  "dlist heap_dup 1 [2, 3, 4, 5, 6, 7] \<and>
   map (key heap_dup) [2, 3, 4, 5, 6, 7] = [''1'', ''1'', ''2'', ''3'', ''3'', ''3''] \<and>
   sorted_wrt (key_le heap_dup) [2, 3, 4, 5, 6, 7] \<and>
   (\<exists>h'. q_delete_dup heap_dup 1 = Some (h', True) \<and> dlist h' 1 [4] \<and> key h' 4 = ''2'' \<and>
      live h' = {1, 4, 14}) \<and>
   (\<exists>h'. q_delete_dup_v0 heap_dup 1 = Some (h', True) \<and> dlist h' 1 [4] \<and> key h' 4 = ''2'' \<and>
      live h' = {1, 4, 14})"
proof -
  have d: "dlist heap_dup 1 [2, 3, 4, 5, 6, 7]" by (simp add: dlist_def heap_dup_def)
  have k: "key heap_dup 2 = ''1''" "key heap_dup 3 = ''1''" "key heap_dup 4 = ''2''"
    "key heap_dup 5 = ''3''" "key heap_dup 6 = ''3''" "key heap_dup 7 = ''3''"
    by (simp_all add: key_def heap_dup_def)
  have s: "sorted_wrt (key_le heap_dup) [2, 3, 4, 5, 6, 7]"
    by (simp add: key_le_def k)
  have f: "filter (\<lambda>z. occurrences heap_dup [2, 3, 4, 5, 6, 7] z = 1) [2, 3, 4, 5, 6, 7] = [4]"
    by (simp add: occurrences_def same_key_def k)
  have l: "live heap_dup - ({2, 3, 5, 6, 7} \<union> e_value heap_dup ` {2, 3, 5, 6, 7}) = {1, 4, 14}"
    by (auto simp: heap_dup_def)
  have kk: "key h' 4 = ''2''" if "e_value h' = e_value heap_dup" "c_str h' = c_str heap_dup" for h'
    using that k(3) by (simp add: key_def)
  have D: "set [2, 3, 4, 5, 6, 7] - set [4] = {2, 3, 5, 6, 7 :: nat}" by auto
  from q_delete_dup_spec [OF d s, of heap_dup] show ?thesis
    unfolding Let_def f D l using d k s kk by auto
qed

section \<open>Merge sort\<close>

subsection \<open>The two-way merge\<close>

text \<open>
  \<^verbatim>\<open>merge\<close> builds its result behind a local dummy \<^verbatim>\<open>struct list_head head\<close>.  The local is
  not part of the heap: its \<^verbatim>\<open>next\<close> member is the variable \<open>hn\<close>, and the pointer \<open>tail\<close>
  is \<open>None\<close> while it points to the local and \<open>Some p\<close> when it points to the node \<open>p\<close>.
  \<open>tail_store\<close>, \<open>tail_store_local\<close> and \<open>tail_load\<close> are the write \<^verbatim>\<open>tail->next = v\<close> (its
  effect on the heap and on the local) and the read \<^verbatim>\<open>tail->next\<close>.
\<close>

definition tail_store :: "ptr option \<Rightarrow> ptr \<Rightarrow> heap \<Rightarrow> heap" where
  "tail_store tail v h = (case tail of None \<Rightarrow> h | Some p \<Rightarrow> set_next p v h)"

definition tail_store_local :: "ptr option \<Rightarrow> ptr \<Rightarrow> ptr \<Rightarrow> ptr" where
  "tail_store_local tail v hn = (case tail of None \<Rightarrow> v | Some p \<Rightarrow> hn)"

definition tail_load :: "ptr option \<Rightarrow> heap \<Rightarrow> ptr \<Rightarrow> ptr" where
  "tail_load tail h hn = (case tail of None \<Rightarrow> hn | Some p \<Rightarrow> l_next h p)"

text \<open>
  The loop of \<^verbatim>\<open>merge\<close>; \<open>take_a\<close> says that \<^verbatim>\<open>smaller\<close> is \<^verbatim>\<open>&a\<close>.  After the loop one of \<open>a\<close>
  and \<open>b\<close> is \<^verbatim>\<open>NULL\<close> and the bitwise or of the two addresses is the other one.  The
  result is the heap and \<^verbatim>\<open>head.next\<close>.
\<close>

partial_function (option) merge_loop ::
    "heap \<Rightarrow> ptr \<Rightarrow> ptr option \<Rightarrow> ptr \<Rightarrow> ptr \<Rightarrow> (heap \<times> ptr) option" where
  "merge_loop h hn tail a b =
     (if a \<noteq> NULL \<and> b \<noteq> NULL then
        let take_a = (strcmp (key h a) (key h b) \<le> 0);
            smaller = (if take_a then a else b);
            h1 = tail_store tail smaller h;
            hn1 = tail_store_local tail smaller hn;
            tail1 = Some (tail_load tail h1 hn1);
            nxt = l_next h1 smaller
        in merge_loop h1 hn1 tail1 (if take_a then nxt else a) (if take_a then b else nxt)
      else Some (tail_store tail (a OR b) h, tail_store_local tail (a OR b) hn))"

definition merge :: "heap \<Rightarrow> ptr \<Rightarrow> ptr \<Rightarrow> (heap \<times> ptr) option" where
  "merge h a b = merge_loop h NULL None a b"

text \<open>
  The other copy of \<^verbatim>\<open>merge\<close> keeps a pointer to the pointer to be written next:
  \<open>None\<close> for \<^verbatim>\<open>&head\<close> (a local pointer variable, \<open>hptr\<close>), \<open>Some p\<close> for \<^verbatim>\<open>&p->next\<close>.
\<close>

partial_function (option) merge_loop_v0 ::
    "heap \<Rightarrow> ptr \<Rightarrow> ptr option \<Rightarrow> ptr \<Rightarrow> ptr \<Rightarrow> (heap \<times> ptr) option" where
  "merge_loop_v0 h hptr tail a b =
     (if strcmp (key h a) (key h b) \<le> 0 then
        let h1 = tail_store tail a h;
            hptr1 = tail_store_local tail a hptr;
            tail1 = Some a;
            a1 = l_next h1 a
        in if a1 = NULL then Some (tail_store tail1 b h1, tail_store_local tail1 b hptr1)
           else merge_loop_v0 h1 hptr1 tail1 a1 b
      else
        let h1 = tail_store tail b h;
            hptr1 = tail_store_local tail b hptr;
            tail1 = Some b;
            b1 = l_next h1 b
        in if b1 = NULL then Some (tail_store tail1 a h1, tail_store_local tail1 a hptr1)
           else merge_loop_v0 h1 hptr1 tail1 a b1)"

definition merge_v0 :: "heap \<Rightarrow> ptr \<Rightarrow> ptr \<Rightarrow> (heap \<times> ptr) option" where
  "merge_v0 h a b =
     (if a = NULL \<or> b = NULL then Some (h, if a \<noteq> NULL then a else b)
      else merge_loop_v0 h NULL None a b)"

subsection \<open>The final merge\<close>

text \<open>
  \<^verbatim>\<open>merge_final\<close>: the merge loop, here also setting \<^verbatim>\<open>prev\<close>; then a loop that sets
  \<^verbatim>\<open>prev\<close> along the rest of the chain; then the list is closed at the sentinel.  The
  loops return the heap and \<open>tail\<close>.
\<close>

partial_function (option) merge_final_loop ::
    "heap \<Rightarrow> ptr \<Rightarrow> ptr \<Rightarrow> ptr \<Rightarrow> (heap \<times> ptr) option" where
  "merge_final_loop h tail a b =
     (if a \<noteq> NULL \<and> b \<noteq> NULL then
        let take_a = (strcmp (key h a) (key h b) \<le> 0);
            smaller = (if take_a then a else b);
            h1 = set_next tail smaller h;
            h2 = set_prev smaller tail h1;
            tail1 = l_next h2 tail;
            nxt = l_next h2 smaller
        in merge_final_loop h2 tail1 (if take_a then nxt else a) (if take_a then b else nxt)
      else Some (set_next tail (a OR b) h, tail))"

partial_function (option) link_prev_loop :: "heap \<Rightarrow> ptr \<Rightarrow> (heap \<times> ptr) option" where
  "link_prev_loop h tail =
     (if l_next h tail \<noteq> NULL then
        let h1 = set_prev (l_next h tail) tail h
        in link_prev_loop h1 (l_next h1 tail)
      else Some (h, tail))"

definition close_list :: "heap \<Rightarrow> ptr \<Rightarrow> ptr \<Rightarrow> heap" where
  "close_list h head tail = set_prev head tail (set_next tail head h)"

definition merge_final :: "heap \<Rightarrow> ptr \<Rightarrow> ptr \<Rightarrow> ptr \<Rightarrow> heap option" where
  "merge_final h head a b =
     (case merge_final_loop h head a b of
        None \<Rightarrow> None
      | Some (h1, tail1) \<Rightarrow>
          (case link_prev_loop h1 tail1 of
             None \<Rightarrow> None
           | Some (h2, tail2) \<Rightarrow> Some (close_list h2 head tail2)))"

subsection \<open>\<^verbatim>\<open>q_sort\<close>\<close>

definition SORT_BUFSIZE :: nat where
  "SORT_BUFSIZE = 32"

text \<open>
  The inner \<^verbatim>\<open>for\<close> loop of \<^verbatim>\<open>q_sort\<close>: it merges \<open>result\<close> upwards through the occupied
  buckets.  Both copies of \<^verbatim>\<open>q_sort\<close> have this loop and the \<^verbatim>\<open>while\<close> loop around it
  (one writes the bound as \<^verbatim>\<open>32\<close>); they call their own \<^verbatim>\<open>merge\<close>, the argument \<open>mrg\<close>.
  The array \<^verbatim>\<open>pending\<close> is a list of \<open>SORT_BUFSIZE\<close> pointers.
\<close>

function carry ::
    "(heap \<Rightarrow> ptr \<Rightarrow> ptr \<Rightarrow> (heap \<times> ptr) option) \<Rightarrow> heap \<Rightarrow> ptr list \<Rightarrow> ptr \<Rightarrow> nat \<Rightarrow>
     (heap \<times> ptr list \<times> ptr \<times> nat) option" where
  "carry mrg h pending result i =
     (if i < SORT_BUFSIZE \<and> pending ! i \<noteq> NULL then
        (case mrg h (pending ! i) result of
           None \<Rightarrow> None
         | Some (h1, result1) \<Rightarrow> carry mrg h1 (pending[i := NULL]) result1 (i + 1))
      else Some (h, pending, result, i))"
  by pat_completeness auto
termination
  by (relation "measure (\<lambda>(mrg, h, pending, result, i). SORT_BUFSIZE - i)") auto

partial_function (option) sort_loop ::
    "(heap \<Rightarrow> ptr \<Rightarrow> ptr \<Rightarrow> (heap \<times> ptr) option) \<Rightarrow> heap \<Rightarrow> ptr list \<Rightarrow> ptr \<Rightarrow>
     (heap \<times> ptr list) option" where
  "sort_loop mrg h pending result =
     (if result \<noteq> NULL then
        let nxt = l_next h result;
            h1 = set_next result NULL h
        in (case carry mrg h1 pending result 0 of
              None \<Rightarrow> None
            | Some (h2, pending2, result2, i) \<Rightarrow>
                let i1 = (if i = SORT_BUFSIZE then i - 1 else i)
                in sort_loop mrg h2 (pending2[i1 := result2]) nxt)
      else Some (h, pending))"

text \<open>The loop that merges the buckets \<open>i, \<dots>, n - 1\<close> into \<open>result\<close>.\<close>

function merge_pending ::
    "(heap \<Rightarrow> ptr \<Rightarrow> ptr \<Rightarrow> (heap \<times> ptr) option) \<Rightarrow> nat \<Rightarrow> heap \<Rightarrow> ptr list \<Rightarrow> ptr \<Rightarrow> nat \<Rightarrow>
     (heap \<times> ptr) option" where
  "merge_pending mrg n h pending result i =
     (if i < n then
        (case mrg h (pending ! i) result of
           None \<Rightarrow> None
         | Some (h1, result1) \<Rightarrow> merge_pending mrg n h1 pending result1 (i + 1))
      else Some (h, result))"
  by pat_completeness auto
termination
  by (relation "measure (\<lambda>(mrg, n, h, pending, result, i). n - i)") auto

definition q_sort :: "heap \<Rightarrow> ptr \<Rightarrow> heap option" where
  "q_sort h head =
     (if head = NULL \<or> l_next h head = l_prev h head then Some h
      else
        let pending = replicate SORT_BUFSIZE NULL;
            result = l_next h head;
            h1 = set_next (l_prev h head) NULL h
        in (case sort_loop merge h1 pending result of
              None \<Rightarrow> None
            | Some (h2, pending2) \<Rightarrow>
                (case merge_pending merge (SORT_BUFSIZE - 1) h2 pending2 NULL 0 of
                   None \<Rightarrow> None
                 | Some (h3, result3) \<Rightarrow>
                     merge_final h3 head result3 (pending2 ! (SORT_BUFSIZE - 1)))))"

text \<open>
  The other copy merges all 32 buckets with \<^verbatim>\<open>merge\<close>, stores the result behind the
  sentinel, sets every \<^verbatim>\<open>prev\<close> and closes the list.
\<close>

definition q_sort_v0 :: "heap \<Rightarrow> ptr \<Rightarrow> heap option" where
  "q_sort_v0 h head =
     (if head = NULL \<or> l_next h head = l_prev h head then Some h
      else
        let array = replicate 32 NULL;
            result = l_next h head;
            h1 = set_next (l_prev h head) NULL h
        in (case sort_loop merge_v0 h1 array result of
              None \<Rightarrow> None
            | Some (h2, array2) \<Rightarrow>
                (case merge_pending merge_v0 32 h2 array2 NULL 0 of
                   None \<Rightarrow> None
                 | Some (h3, result3) \<Rightarrow>
                     (case link_prev_loop (set_next head result3 h3) head of
                        None \<Rightarrow> None
                      | Some (h4, node) \<Rightarrow> Some (close_list h4 head node)))))"

subsection \<open>The sort on lists\<close>

text \<open>
  The same algorithm on lists: a run is the list of the nodes of a chain, the array of
  buckets is a list of runs.
\<close>

fun amerge :: "('a \<Rightarrow> 'a \<Rightarrow> bool) \<Rightarrow> 'a list \<Rightarrow> 'a list \<Rightarrow> 'a list" where
  "amerge le [] bs = bs"
| "amerge le (a # as) [] = a # as"
| "amerge le (a # as) (b # bs) =
     (if le a b then a # amerge le as (b # bs) else b # amerge le (a # as) bs)"

function acarry ::
    "('a \<Rightarrow> 'a \<Rightarrow> bool) \<Rightarrow> 'a list list \<Rightarrow> 'a list \<Rightarrow> nat \<Rightarrow> 'a list list \<times> 'a list \<times> nat" where
  "acarry le rs r i =
     (if i < SORT_BUFSIZE \<and> rs ! i \<noteq> [] then
        acarry le (rs[i := []]) (amerge le (rs ! i) r) (i + 1)
      else (rs, r, i))"
  by pat_completeness auto
termination
  by (relation "measure (\<lambda>(le, rs, r, i). SORT_BUFSIZE - i)") auto

definition ainsert :: "('a \<Rightarrow> 'a \<Rightarrow> bool) \<Rightarrow> 'a list list \<Rightarrow> 'a \<Rightarrow> 'a list list" where
  "ainsert le rs x =
     (case acarry le rs [x] 0 of
        (rs1, r1, i) \<Rightarrow> rs1[(if i = SORT_BUFSIZE then i - 1 else i) := r1])"

definition apending :: "('a \<Rightarrow> 'a \<Rightarrow> bool) \<Rightarrow> 'a list \<Rightarrow> 'a list list" where
  "apending le xs = foldl (ainsert le) (replicate SORT_BUFSIZE []) xs"

function amerge_pending ::
    "('a \<Rightarrow> 'a \<Rightarrow> bool) \<Rightarrow> nat \<Rightarrow> 'a list list \<Rightarrow> 'a list \<Rightarrow> nat \<Rightarrow> 'a list" where
  "amerge_pending le n rs r i =
     (if i < n then amerge_pending le n rs (amerge le (rs ! i) r) (i + 1) else r)"
  by pat_completeness auto
termination
  by (relation "measure (\<lambda>(le, n, rs, r, i). n - i)") auto

definition asort :: "('a \<Rightarrow> 'a \<Rightarrow> bool) \<Rightarrow> 'a list \<Rightarrow> 'a list" where
  "asort le xs =
     (let rs = apending le xs
      in amerge le (amerge_pending le (SORT_BUFSIZE - 1) rs [] 0) (rs ! (SORT_BUFSIZE - 1)))"

definition asort_v0 :: "('a \<Rightarrow> 'a \<Rightarrow> bool) \<Rightarrow> 'a list \<Rightarrow> 'a list" where
  "asort_v0 le xs = amerge_pending le 32 (apending le xs) [] 0"

declare acarry.simps [simp del] amerge_pending.simps [simp del] carry.simps [simp del]
  merge_pending.simps [simp del]

lemma mset_amerge [simp]: "mset (amerge le as bs) = mset as + mset bs"
  by (induction le as bs rule: amerge.induct) auto

lemma set_amerge [simp]: "set (amerge le as bs) = set as \<union> set bs"
  by (induction le as bs rule: amerge.induct) auto

lemma length_amerge [simp]: "length (amerge le as bs) = length as + length bs"
  by (induction le as bs rule: amerge.induct) auto

lemma amerge_Nil2 [simp]: "amerge le as [] = as"
  by (cases as) auto

lemma amerge_eq_Nil [simp]: "amerge le as bs = [] \<longleftrightarrow> as = [] \<and> bs = []"
  by (induction le as bs rule: amerge.induct) auto

lemma hd_amerge:
  "as \<noteq> [] \<Longrightarrow> bs \<noteq> [] \<Longrightarrow>
   hd (amerge le as bs) = (if le (hd as) (hd bs) then hd as else hd bs)"
  by (cases as; cases bs) auto

text \<open>The comparison is transitive and total.\<close>

definition total_preorder :: "('a \<Rightarrow> 'a \<Rightarrow> bool) \<Rightarrow> bool" where
  "total_preorder le = ((\<forall>x y z. le x y \<longrightarrow> le y z \<longrightarrow> le x z) \<and> (\<forall>x y. le x y \<or> le y x))"

lemma total_preorderD:
  assumes "total_preorder le"
  shows "le x y \<Longrightarrow> le y z \<Longrightarrow> le x z" "le x y \<or> le y x"
  using assms unfolding total_preorder_def by blast+

lemma sorted_amerge:
  "total_preorder le \<Longrightarrow> sorted_wrt le as \<Longrightarrow> sorted_wrt le bs \<Longrightarrow>
   sorted_wrt le (amerge le as bs)"
proof (induction le as bs rule: amerge.induct)
  case (1 le bs)
  then show ?case by simp
next
  case (2 le a as)
  then show ?case by simp
next
  case (3 le a as b bs)
  note tp = "3.prems"(1)
  note tr = total_preorderD(1) [OF tp] and tot = total_preorderD(2) [OF tp]
  from "3.prems"(2) have sa: "sorted_wrt le as" and la: "\<And>y. y \<in> set as \<Longrightarrow> le a y" by simp_all
  from "3.prems"(3) have sb: "sorted_wrt le bs" and lb: "\<And>y. y \<in> set bs \<Longrightarrow> le b y" by simp_all
  show ?case
  proof (cases "le a b")
    case True
    have s: "sorted_wrt le (amerge le as (b # bs))"
      by (rule "3.IH"(1) [OF True tp sa "3.prems"(3)])
    have "le a y" if "y \<in> set as \<union> set (b # bs)" for y
      using that la lb True tr [of a b y] by auto
    then show ?thesis using True s by simp
  next
    case False
    then have ba: "le b a" using tot [of a b] by blast
    have s: "sorted_wrt le (amerge le (a # as) bs)"
      by (rule "3.IH"(2) [OF False tp "3.prems"(2) sb])
    have "le b y" if "y \<in> set (a # as) \<union> set bs" for y
      using that la lb ba tr [of b a y] by auto
    then show ?thesis using False s by simp
  qed
qed

text \<open>
  The buckets in the order of age: a bucket with a higher index holds elements that
  came earlier in the input.
\<close>

definition aged :: "'a list list \<Rightarrow> 'a list" where
  "aged rs = concat (rev rs)"

lemma aged_split:
  "i < length rs \<Longrightarrow> aged rs = aged (drop (Suc i) rs) @ rs ! i @ aged (take i rs)"
proof -
  assume "i < length rs"
  then have "rs = take i rs @ rs ! i # drop (Suc i) rs" by (rule id_take_nth_drop)
  then have "rev rs = rev (drop (Suc i) rs) @ [rs ! i] @ rev (take i rs)"
    by (metis append_Cons append_Nil append_assoc rev.simps(2) rev_append)
  then show ?thesis by (simp add: aged_def)
qed

lemma aged_update:
  "i < length rs \<Longrightarrow> aged (rs[i := ys]) = aged (drop (Suc i) rs) @ ys @ aged (take i rs)"
  using aged_split [of i "rs[i := ys]"] by simp

lemma aged_empty: "(\<And>j. j < length rs \<Longrightarrow> rs ! j = []) \<Longrightarrow> aged rs = []"
  by (auto simp: aged_def in_set_conv_nth)

lemma aged_take_empty: "i \<le> length rs \<Longrightarrow> (\<And>j. j < i \<Longrightarrow> rs ! j = []) \<Longrightarrow> aged (take i rs) = []"
  by (rule aged_empty) simp

lemma aged_simps [simp]: "aged [] = []" "aged (r # rs) = aged rs @ r"
  by (simp_all add: aged_def)

lemma mset_aged [simp]: "mset (aged rs) = mset (concat rs)"
  by (induction rs) simp_all

lemma set_aged [simp]: "set (aged rs) = set (concat rs)"
  by (simp add: aged_def)

text \<open>A predicate that holds only of elements with equal keys.\<close>

definition key_class :: "('a \<Rightarrow> 'a \<Rightarrow> bool) \<Rightarrow> ('a \<Rightarrow> bool) \<Rightarrow> bool" where
  "key_class le P = (\<forall>x y. P x \<and> P y \<longrightarrow> le x y)"

lemma amerge_filter:
  "total_preorder le \<Longrightarrow> key_class le P \<Longrightarrow> sorted_wrt le as \<Longrightarrow>
   filter P (amerge le as bs) = filter P as @ filter P bs"
proof (induction le as bs rule: amerge.induct)
  case (1 le bs)
  then show ?case by simp
next
  case (2 le a as)
  then show ?case by simp
next
  case (3 le a as b bs)
  note tp = "3.prems"(1) and kc = "3.prems"(2)
  note tr = total_preorderD(1) [OF tp]
  from "3.prems"(3) have sa: "sorted_wrt le as" and la: "\<And>y. y \<in> set as \<Longrightarrow> le a y" by simp_all
  show ?case
  proof (cases "le a b")
    case True
    have "filter P (amerge le as (b # bs)) = filter P as @ filter P (b # bs)"
      by (rule "3.IH"(1) [OF True tp kc sa])
    then show ?thesis using True by simp
  next
    case False
    have ih: "filter P (amerge le (a # as) bs) = filter P (a # as) @ filter P bs"
      by (rule "3.IH"(2) [OF False tp kc "3.prems"(3)])
    show ?thesis
    proof (cases "P b")
      case Pb: True
      have "\<not> P y" if "y \<in> set (a # as)" for y
      proof
        assume "P y"
        then have yb: "le y b" using Pb kc by (auto simp: key_class_def)
        have "le a b"
        proof (cases "y = a")
          case True
          then show ?thesis using yb by simp
        next
          case False
          then have "le a y" using that la by auto
          then show ?thesis using yb tr by blast
        qed
        with False show False by simp
      qed
      then have "filter P (a # as) = []" by (simp add: filter_empty_conv)
      then show ?thesis using False ih Pb by simp
    next
      case False
      then show ?thesis using \<open>\<not> le a b\<close> ih by simp
    qed
  qed
qed

text \<open>
  What holds of the buckets between two insertions: there are \<open>SORT_BUFSIZE\<close> of them,
  each is sorted, and bucket \<open>i\<close> is empty or holds at least \<open>2 ^ i\<close> elements.
\<close>

definition runs_inv :: "('a \<Rightarrow> 'a \<Rightarrow> bool) \<Rightarrow> 'a list list \<Rightarrow> bool" where
  "runs_inv le rs =
     (length rs = SORT_BUFSIZE \<and> (\<forall>i<SORT_BUFSIZE. sorted_wrt le (rs ! i)) \<and>
      (\<forall>i<SORT_BUFSIZE. rs ! i = [] \<or> 2 ^ i \<le> length (rs ! i)))"

lemma runs_inv_clear: "runs_inv le rs \<Longrightarrow> runs_inv le (rs[i := []])"
  by (cases "i < length rs") (auto simp: runs_inv_def nth_list_update)

lemma runs_inv_store:
  "runs_inv le rs \<Longrightarrow> sorted_wrt le r \<Longrightarrow> 2 ^ i \<le> length r \<Longrightarrow> runs_inv le (rs[i := r])"
  by (cases "i < length rs") (auto simp: runs_inv_def nth_list_update)

lemma acarry_inv:
  "total_preorder le \<Longrightarrow>
   runs_inv le rs \<Longrightarrow> sorted_wrt le r \<Longrightarrow> 2 ^ i \<le> length r \<Longrightarrow> i \<le> SORT_BUFSIZE \<Longrightarrow>
   (\<And>j. j < i \<Longrightarrow> rs ! j = []) \<Longrightarrow> acarry le rs r i = (rs', r', i') \<Longrightarrow>
   runs_inv le rs' \<and> sorted_wrt le r' \<and> 2 ^ i' \<le> length r' \<and> i' \<le> SORT_BUFSIZE \<and>
   (\<forall>j<i'. rs' ! j = []) \<and> (i' < SORT_BUFSIZE \<longrightarrow> rs' ! i' = []) \<and>
   mset (aged rs' @ r') = mset (aged rs @ r) \<and>
   (\<forall>P. key_class le P \<longrightarrow> filter P (aged rs' @ r') = filter P (aged rs @ r))"
proof (induction le rs r i rule: acarry.induct)
  case (1 le rs r i)
  note tp = "1.prems"(1) and inv = "1.prems"(2) and sr = "1.prems"(3)
    and sz = "1.prems"(4) and le_n = "1.prems"(5) and low = "1.prems"(6) and res = "1.prems"(7)
  have len: "length rs = SORT_BUFSIZE" using inv by (simp add: runs_inv_def)
  show ?case
  proof (cases "i < SORT_BUFSIZE \<and> rs ! i \<noteq> []")
    case True
    let ?rs = "rs[i := []]" and ?r = "amerge le (rs ! i) r"
    have si: "sorted_wrt le (rs ! i)" and zi: "2 ^ i \<le> length (rs ! i)"
      using inv True by (auto simp: runs_inv_def)
    have res': "acarry le ?rs ?r (i + 1) = (rs', r', i')"
      using res True by (subst (asm) acarry.simps) simp
    have a1: "runs_inv le ?rs" by (rule runs_inv_clear [OF inv])
    have a2: "sorted_wrt le ?r" by (rule sorted_amerge [OF tp si sr])
    have a3: "2 ^ (i + 1) \<le> length ?r" using sz zi by simp
    have a4: "i + 1 \<le> SORT_BUFSIZE" using True by simp
    have a5: "?rs ! j = []" if "j < i + 1" for j
      using that low [of j] len True by (cases "j = i") simp_all
    note ih = "1.IH" [OF True tp a1 a2 a3 a4 a5 res']
    have i_len: "i < length rs" using True len by simp
    have lowt: "aged (take i rs) = []"
      using i_len low by (intro aged_take_empty) simp_all
    have e1: "aged ?rs = aged (drop (Suc i) rs)"
      using aged_update [OF i_len, of "[]"] lowt by simp
    have e2: "aged rs = aged (drop (Suc i) rs) @ rs ! i"
      using aged_split [OF i_len] lowt by simp
    have m: "mset (aged ?rs @ ?r) = mset (aged rs @ r)"
      by (simp add: e1 e2 del: mset_aged)
    have f: "filter P (aged ?rs @ ?r) = filter P (aged rs @ r)" if "key_class le P" for P
      using amerge_filter [OF tp that si, where bs = r] by (simp add: e1 e2)
    show ?thesis using ih m f by simp
  next
    case False
    then have "rs' = rs" "r' = r" "i' = i"
      using res by (subst (asm) acarry.simps; simp)+
    then show ?thesis
      using inv sr sz le_n low False by auto
  qed
qed

text \<open>
  \<open>stable_perm le ys xs\<close>: \<open>ys\<close> is a rearrangement of \<open>xs\<close> in which elements of equal
  key keep their order.
\<close>

definition stable_perm :: "('a \<Rightarrow> 'a \<Rightarrow> bool) \<Rightarrow> 'a list \<Rightarrow> 'a list \<Rightarrow> bool" where
  "stable_perm le ys xs = (mset ys = mset xs \<and> (\<forall>P. key_class le P \<longrightarrow> filter P ys = filter P xs))"

lemma stable_perm_refl [simp]: "stable_perm le xs xs"
  by (simp add: stable_perm_def)

lemma stable_perm_trans: "stable_perm le zs ys \<Longrightarrow> stable_perm le ys xs \<Longrightarrow> stable_perm le zs xs"
  by (simp add: stable_perm_def)

lemma stable_perm_append:
  "stable_perm le ys xs \<Longrightarrow> stable_perm le ys' xs' \<Longrightarrow> stable_perm le (ys @ ys') (xs @ xs')"
  by (simp add: stable_perm_def)

lemma stable_perm_amerge:
  "total_preorder le \<Longrightarrow> sorted_wrt le as \<Longrightarrow> stable_perm le (amerge le as bs) (as @ bs)"
  unfolding stable_perm_def by (auto intro: amerge_filter)

lemma ainsert_inv:
  assumes tp: "total_preorder le" and inv: "runs_inv le rs"
  shows "runs_inv le (ainsert le rs x)" "stable_perm le (aged (ainsert le rs x)) (aged rs @ [x])"
proof -
  obtain rs' r' i' where res: "acarry le rs [x] 0 = (rs', r', i')"
    by (cases "acarry le rs [x] 0") auto
  have c: "runs_inv le rs' \<and> sorted_wrt le r' \<and> 2 ^ i' \<le> length r' \<and> i' \<le> SORT_BUFSIZE \<and>
      (\<forall>j<i'. rs' ! j = []) \<and> (i' < SORT_BUFSIZE \<longrightarrow> rs' ! i' = []) \<and>
      mset (aged rs' @ r') = mset (aged rs @ [x]) \<and>
      (\<forall>P. key_class le P \<longrightarrow> filter P (aged rs' @ r') = filter P (aged rs @ [x]))"
    by (rule acarry_inv [OF tp inv _ _ _ _ res]) simp_all
  define k where "k = (if i' = SORT_BUFSIZE then i' - 1 else i')"
  have ins: "ainsert le rs x = rs'[k := r']"
    by (simp add: ainsert_def res k_def)
  have len: "length rs' = SORT_BUFSIZE" using c by (simp add: runs_inv_def)
  have low: "\<And>j. j < i' \<Longrightarrow> rs' ! j = []" and top: "i' < SORT_BUFSIZE \<Longrightarrow> rs' ! i' = []"
    and i'n: "i' \<le> SORT_BUFSIZE"
    using c by simp_all
  have k: "k < length rs'" "k \<le> i'" "rs' ! k = []" "\<And>j. j < k \<Longrightarrow> rs' ! j = []"
  proof -
    show "k < length rs'" using i'n len by (simp add: k_def SORT_BUFSIZE_def)
    show kl: "k \<le> i'" by (simp add: k_def)
    show "rs' ! k = []"
    proof (cases "i' = SORT_BUFSIZE")
      case True
      then have "k < i'" by (simp add: k_def SORT_BUFSIZE_def)
      then show ?thesis by (rule low)
    next
      case False
      then show ?thesis using top i'n by (simp add: k_def)
    qed
    show "rs' ! j = []" if "j < k" for j
      using that kl by (intro low) simp
  qed
  have "(2::nat) ^ k \<le> 2 ^ i'" using k(2) by (simp add: power_increasing)
  then have sz: "2 ^ k \<le> length r'" using c by linarith
  show "runs_inv le (ainsert le rs x)"
    unfolding ins using c sz by (intro runs_inv_store) simp_all
  have lowt: "aged (take k rs') = []"
    using k by (intro aged_take_empty) simp_all
  have "aged (rs'[k := r']) = aged (drop (Suc k) rs') @ r'"
    using aged_update [OF k(1), of r'] lowt by simp
  moreover have "aged rs' = aged (drop (Suc k) rs')"
    using aged_split [OF k(1)] lowt k(3) by simp
  ultimately have "aged (ainsert le rs x) = aged rs' @ r'" by (simp add: ins)
  then show "stable_perm le (aged (ainsert le rs x)) (aged rs @ [x])"
    using c by (simp add: stable_perm_def del: mset_aged mset_append)
qed

lemma runs_inv_replicate: "runs_inv le (replicate SORT_BUFSIZE [])"
  by (simp add: runs_inv_def)

lemma aged_replicate [simp]: "aged (replicate n []) = []"
  by (rule aged_empty) simp

lemma foldl_ainsert_inv:
  assumes tp: "total_preorder le"
  shows "runs_inv le rs \<Longrightarrow>
    runs_inv le (foldl (ainsert le) rs xs) \<and>
    stable_perm le (aged (foldl (ainsert le) rs xs)) (aged rs @ xs)"
proof (induction xs arbitrary: rs)
  case Nil
  then show ?case by simp
next
  case (Cons x xs)
  note a = ainsert_inv [OF tp Cons.prems, where x = x]
  from Cons.IH [OF a(1)] have
    b: "runs_inv le (foldl (ainsert le) (ainsert le rs x) xs)"
      "stable_perm le (aged (foldl (ainsert le) (ainsert le rs x) xs)) (aged (ainsert le rs x) @ xs)"
    by simp_all
  have "stable_perm le (aged (ainsert le rs x) @ xs) ((aged rs @ [x]) @ xs)"
    by (rule stable_perm_append [OF a(2) stable_perm_refl])
  with b(2) have "stable_perm le (aged (foldl (ainsert le) (ainsert le rs x) xs)) ((aged rs @ [x]) @ xs)"
    by (rule stable_perm_trans)
  then show ?case using b(1) by simp
qed

lemma apending_inv:
  assumes tp: "total_preorder le"
  shows "runs_inv le (apending le xs)" "stable_perm le (aged (apending le xs)) xs"
  using foldl_ainsert_inv [OF tp runs_inv_replicate, where xs = xs] by (simp_all add: apending_def)

lemma amerge_pending_inv:
  "total_preorder le \<Longrightarrow> (\<forall>j<n. sorted_wrt le (rs ! j)) \<Longrightarrow> sorted_wrt le r \<Longrightarrow> i \<le> n \<Longrightarrow> n \<le> length rs \<Longrightarrow>
   sorted_wrt le (amerge_pending le n rs r i) \<and>
   stable_perm le (amerge_pending le n rs r i) (aged (drop i (take n rs)) @ r)"
proof (induction le n rs r i rule: amerge_pending.induct)
  case (1 le n rs r i)
  note tp = "1.prems"(1) and srt = "1.prems"(2) and sr = "1.prems"(3)
  show ?case
  proof (cases "i < n")
    case True
    let ?r = "amerge le (rs ! i) r"
    have si: "sorted_wrt le (rs ! i)" using srt True by simp
    have a2: "sorted_wrt le ?r" by (rule sorted_amerge [OF tp si sr])
    have a3: "i + 1 \<le> n" using True by simp
    note ih = "1.IH" [OF True tp srt a2 a3 "1.prems"(5)]
    have e: "amerge_pending le n rs r i = amerge_pending le n rs ?r (i + 1)"
      using True by (subst amerge_pending.simps) simp
    have "i < length (take n rs)" using True "1.prems"(5) by simp
    then have d: "drop i (take n rs) = rs ! i # drop (Suc i) (take n rs)"
      using True by (simp add: Cons_nth_drop_Suc [symmetric])
    have "stable_perm le (aged (drop (Suc i) (take n rs)) @ ?r)
        (aged (drop (Suc i) (take n rs)) @ rs ! i @ r)"
      by (rule stable_perm_append [OF stable_perm_refl stable_perm_amerge [OF tp si]])
    moreover from ih have "stable_perm le (amerge_pending le n rs ?r (i + 1))
        (aged (drop (Suc i) (take n rs)) @ ?r)" by simp
    ultimately have "stable_perm le (amerge_pending le n rs ?r (i + 1))
        (aged (drop (Suc i) (take n rs)) @ rs ! i @ r)"
      using stable_perm_trans by blast
    then show ?thesis using ih e d by simp
  next
    case False
    then show ?thesis
      using "1.prems" by (subst amerge_pending.simps, subst amerge_pending.simps) simp
  qed
qed

lemma asort_v0_spec:
  assumes tp: "total_preorder le"
  shows "sorted_wrt le (asort_v0 le xs)" "stable_perm le (asort_v0 le xs) xs"
proof -
  let ?rs = "apending le xs"
  note inv = apending_inv [OF tp, of xs]
  have len: "length ?rs = 32" and srt: "\<forall>j<32. sorted_wrt le (?rs ! j)"
    using inv(1) by (simp_all add: runs_inv_def SORT_BUFSIZE_def)
  have "sorted_wrt le (amerge_pending le 32 ?rs [] 0) \<and>
      stable_perm le (amerge_pending le 32 ?rs [] 0) (aged (drop 0 (take 32 ?rs)) @ [])"
    by (rule amerge_pending_inv [OF tp srt]) (simp_all add: len)
  then have a: "sorted_wrt le (asort_v0 le xs)" "stable_perm le (asort_v0 le xs) (aged ?rs)"
    using len by (simp_all add: asort_v0_def)
  show "sorted_wrt le (asort_v0 le xs)" by (rule a(1))
  show "stable_perm le (asort_v0 le xs) xs" by (rule stable_perm_trans [OF a(2) inv(2)])
qed

lemma length_nth_le_concat: "i < length rs \<Longrightarrow> length (rs ! i) \<le> length (concat rs)"
proof (induction rs arbitrary: i)
  case Nil
  then show ?case by simp
next
  case (Cons r rs)
  then show ?case by (cases i) (auto simp: le_SucI trans_le_add2)
qed

lemma asort_spec:
  assumes tp: "total_preorder le"
  shows "sorted_wrt le (asort le xs)" "mset (asort le xs) = mset xs"
    "length xs < 2 ^ 31 \<Longrightarrow> stable_perm le (asort le xs) xs"
proof -
  let ?rs = "apending le xs"
  let ?R = "amerge_pending le 31 ?rs [] 0"
  note inv = apending_inv [OF tp, of xs]
  have len: "length ?rs = 32" and srt: "\<forall>j<32. sorted_wrt le (?rs ! j)"
    and szs: "\<forall>i<32. ?rs ! i = [] \<or> 2 ^ i \<le> length (?rs ! i)"
    using inv(1) by (simp_all add: runs_inv_def SORT_BUFSIZE_def)
  have sz: "?rs ! 31 = [] \<or> 2 ^ 31 \<le> length (?rs ! 31)"
    using szs by (drule_tac x = 31 in spec) simp
  have srt31: "\<forall>j<31. sorted_wrt le (?rs ! j)" using srt by simp
  have "sorted_wrt le ?R \<and> stable_perm le ?R (aged (drop 0 (take 31 ?rs)) @ [])"
    by (rule amerge_pending_inv [OF tp srt31]) (simp_all add: len)
  then have R: "sorted_wrt le ?R" "stable_perm le ?R (aged (take 31 ?rs))" by simp_all
  have as: "asort le xs = amerge le ?R (?rs ! 31)"
    by (simp add: asort_def SORT_BUFSIZE_def Let_def)
  have ag: "aged ?rs = ?rs ! 31 @ aged (take 31 ?rs)"
    using aged_split [of 31 ?rs] len by simp
  have mx: "mset (aged ?rs) = mset xs" using inv(2) by (simp add: stable_perm_def del: mset_aged)
  show "sorted_wrt le (asort le xs)"
    unfolding as using srt R(1) by (intro sorted_amerge [OF tp]) simp_all
  have "mset (asort le xs) = mset (aged ?rs)"
    unfolding as ag using R(2) by (simp add: stable_perm_def del: mset_aged)
  then show "mset (asort le xs) = mset xs" using mx by simp
  show "stable_perm le (asort le xs) xs" if small: "length xs < 2 ^ 31"
  proof -
    have "length (?rs ! 31) \<le> length (concat ?rs)"
      by (rule length_nth_le_concat) (simp add: len)
    also have "\<dots> = length xs"
      using mx by (metis mset_aged size_mset)
    finally have "?rs ! 31 = []" using sz small by auto
    then have "asort le xs = ?R" "aged ?rs = aged (take 31 ?rs)" using as ag by simp_all
    then have "stable_perm le (asort le xs) (aged ?rs)" using R(2) by simp
    then show ?thesis by (rule stable_perm_trans [OF _ inv(2)])
  qed
qed

subsection \<open>Chains on the heap\<close>

text \<open>
  \<open>chain f p xs\<close>: the \<^verbatim>\<open>NULL\<close>-terminated singly linked chain that starts at \<open>p\<close> consists of
  the nodes \<open>xs\<close>.
\<close>

definition chain :: "(ptr \<Rightarrow> ptr) \<Rightarrow> ptr \<Rightarrow> ptr list \<Rightarrow> bool" where
  "chain f p xs = (seg f p xs NULL \<and> NULL \<notin> set xs \<and> distinct xs)"

lemma chain_Nil [simp]: "chain f p [] \<longleftrightarrow> p = NULL"
  by (simp add: chain_def)

lemma chain_Cons [simp]:
  "chain f p (x # xs) \<longleftrightarrow> p = x \<and> x \<noteq> NULL \<and> x \<notin> set xs \<and> chain f (f x) xs"
  by (auto simp: chain_def)

lemma chain_hd: "chain f p xs \<Longrightarrow> p = hd (xs @ [NULL])"
  by (cases xs) auto

lemma chain_NULL: "chain f NULL xs \<Longrightarrow> xs = []"
  by (cases xs) auto

lemma chain_Nil_iff: "chain f p xs \<Longrightarrow> xs = [] \<longleftrightarrow> p = NULL"
  by (cases xs) auto

lemma chain_props: "chain f p xs \<Longrightarrow> NULL \<notin> set xs \<and> distinct xs"
  by (simp add: chain_def)

lemma chain_cong: "(\<And>x. x \<in> set xs \<Longrightarrow> g x = f x) \<Longrightarrow> chain g p xs = chain f p xs"
  by (induction xs arbitrary: p) auto

lemma chain_upd [simp]: "u \<notin> set xs \<Longrightarrow> chain (f(u := v)) p xs = chain f p xs"
  by (rule chain_cong) auto

text \<open>
  \<open>frame g g' S\<close>: the heap \<open>g'\<close> differs from \<open>g\<close> at most in the \<^verbatim>\<open>next\<close> links of the
  nodes in \<open>S\<close>.
\<close>

definition frame :: "heap \<Rightarrow> heap \<Rightarrow> ptr set \<Rightarrow> bool" where
  "frame g g' S =
     ((\<forall>q. q \<notin> S \<longrightarrow> l_next g' q = l_next g q) \<and> l_prev g' = l_prev g \<and>
      e_value g' = e_value g \<and> c_str g' = c_str g \<and> live g' = live g)"

lemma frame_refl [simp]: "frame g g S"
  by (simp add: frame_def)

lemma frame_trans: "frame g g1 S \<Longrightarrow> frame g1 g2 T \<Longrightarrow> S \<union> T \<subseteq> U \<Longrightarrow> frame g g2 U"
  unfolding frame_def by (metis Un_iff subsetD)

lemma frame_set_next: "p \<in> S \<Longrightarrow> frame g (set_next p q g) S"
  by (auto simp: frame_def)

lemma frame_key_le: "frame g g' S \<Longrightarrow> key_le g' = key_le g"
  by (simp add: frame_def key_le_def key_def fun_eq_iff)

lemma chain_frame:
  "chain (l_next g) p xs \<Longrightarrow> frame g g' S \<Longrightarrow> set xs \<inter> S = {} \<Longrightarrow> chain (l_next g') p xs"
  by (subst chain_cong [of xs _ "l_next g"]) (auto simp: frame_def)

lemma key_le_set_next [simp]: "key_le (set_next p q h) = key_le h"
  by (simp add: key_le_def fun_eq_iff)

lemma key_le_set_prev [simp]: "key_le (set_prev p q h) = key_le h"
  by (simp add: key_le_def fun_eq_iff)

lemma tail_store_simps [simp]:
  "tail_store None v h = h" "tail_store (Some p) v h = set_next p v h"
  "tail_store_local None v hn = v" "tail_store_local (Some p) v hn = hn"
  "tail_load None h hn = hn" "tail_load (Some p) h hn = l_next h p"
  by (simp_all add: tail_store_def tail_store_local_def tail_load_def)

lemma key_le_tail_store [simp]: "key_le (tail_store tail v h) = key_le h"
  by (cases tail) simp_all

lemma frame_tail_store: "set_option tail \<subseteq> S \<Longrightarrow> frame g (tail_store tail v g) S"
  by (cases tail) (auto simp: frame_def)

lemma tail_load_store: "tail_load tail (tail_store tail v h) (tail_store_local tail v hn) = v"
  by (cases tail) simp_all

lemma chain_tail_store:
  "set_option tail \<inter> set xs = {} \<Longrightarrow> chain (l_next (tail_store tail v g)) p xs = chain (l_next g) p xs"
  by (cases tail) simp_all

lemma l_next_tail_store: "set_option tail \<inter> {q} = {} \<Longrightarrow> l_next (tail_store tail v g) q = l_next g q"
  by (cases tail) auto

lemma merge_loop_chain:
  assumes "chain (l_next g) a as" "chain (l_next g) b bs" "set as \<inter> set bs = {}"
    "set_option tail \<inter> (set as \<union> set bs) = {}"
  shows "\<exists>g' hn'. merge_loop g hn tail a b = Some (g', hn') \<and>
      tail_load tail g' hn' = hd (amerge (key_le g) as bs @ [NULL]) \<and>
      chain (l_next g') (hd (amerge (key_le g) as bs @ [NULL])) (amerge (key_le g) as bs) \<and>
      (tail \<noteq> None \<longrightarrow> hn' = hn) \<and> frame g g' (set as \<union> set bs \<union> set_option tail)"
  using assms
proof (induction "length as + length bs" arbitrary: g hn tail a b as bs rule: less_induct)
  case less
  note ca = less.prems(1) and cb = less.prems(2) and dj = less.prems(3) and tl = less.prems(4)
  let ?le = "key_le g"
  show ?case
  proof (cases "as = [] \<or> bs = []")
    case True
    then have ab: "a = NULL \<or> b = NULL" using ca cb by auto
    have R: "amerge ?le as bs = (if as = [] then bs else as)" using True by auto
    have o: "a OR b = hd (amerge ?le as bs @ [NULL])"
      using True ca cb chain_hd [OF ca] chain_hd [OF cb] by (auto simp: R)
    let ?g' = "tail_store tail (a OR b) g"
    have 1: "merge_loop g hn tail a b = Some (?g', tail_store_local tail (a OR b) hn)"
      using ab by (subst merge_loop.simps) auto
    have 2: "chain (l_next ?g') (hd (amerge ?le as bs @ [NULL])) (amerge ?le as bs)"
    proof -
      have "chain (l_next g) (a OR b) (amerge ?le as bs)"
        using True ca cb by (auto simp: R)
      moreover have "set_option tail \<inter> set (amerge ?le as bs) = {}" using tl by auto
      ultimately show ?thesis by (simp add: chain_tail_store o)
    qed
    have 3: "frame g ?g' (set as \<union> set bs \<union> set_option tail)"
      by (rule frame_tail_store) simp
    have 4: "tail \<noteq> None \<longrightarrow> tail_store_local tail (a OR b) hn = hn" by (cases tail) simp_all
    show ?thesis
      using 1 2 3 4 tail_load_store [of tail "a OR b" g hn] by (simp add: o)
  next
    case False
    then obtain x as' y bs' where as: "as = x # as'" and bs: "bs = y # bs'"
      by (cases as; cases bs) auto
    from ca cb as bs have ax: "a = x" "x \<noteq> NULL" "x \<notin> set as'" and ca': "chain (l_next g) (l_next g x) as'"
      and by': "b = y" "y \<noteq> NULL" "y \<notin> set bs'" and cb': "chain (l_next g) (l_next g y) bs'"
      by auto
    from dj as bs have dj': "x \<noteq> y" "x \<notin> set bs'" "y \<notin> set as'" "set as' \<inter> set bs' = {}" by auto
    from tl as bs have tl': "set_option tail \<inter> {x} = {}" "set_option tail \<inter> {y} = {}"
      "set_option tail \<inter> set as' = {}" "set_option tail \<inter> set bs' = {}" by auto
    show ?thesis
    proof (cases "?le x y")
      case True
      let ?g1 = "tail_store tail x g" and ?hn1 = "tail_store_local tail x hn"
      let ?R' = "amerge ?le as' bs"
      have R: "amerge ?le as bs = x # ?R'" using True as bs by simp
      have nx: "l_next ?g1 x = l_next g x" by (rule l_next_tail_store [OF tl'(1)])
      have step: "merge_loop g hn tail a b = merge_loop ?g1 ?hn1 (Some x) (l_next g x) y"
        unfolding ax(1) by'(1) using True ax(2) by'(2)
        by (subst merge_loop.simps) (simp add: Let_def key_le_def tail_load_store nx)
      have p1: "chain (l_next ?g1) (l_next g x) as'" using ca' tl'(3) by (simp add: chain_tail_store)
      have p2: "chain (l_next ?g1) y bs" using cb tl by'(1) by (simp add: chain_tail_store Int_Un_distrib)
      have p3: "set as' \<inter> set bs = {}" using dj' bs by auto
      have p4: "set_option (Some x) \<inter> (set as' \<union> set bs) = {}" using ax dj' bs by auto
      have len: "length as' + length bs < length as + length bs" using as by simp
      from less.hyps [OF len p1 p2 p3 p4, of ?hn1] obtain g' hn' where
        ih: "merge_loop ?g1 ?hn1 (Some x) (l_next g x) y = Some (g', hn')"
          "l_next g' x = hd (?R' @ [NULL])" "chain (l_next g') (hd (?R' @ [NULL])) ?R'"
          "hn' = ?hn1" "frame ?g1 g' (set as' \<union> set bs \<union> {x})"
        by auto
      have f1: "frame g ?g1 (set_option tail)" by (rule frame_tail_store) simp
      have fr: "frame g g' (set as \<union> set bs \<union> set_option tail)"
        by (rule frame_trans [OF f1 ih(5)]) (auto simp: as)
      have xR: "x \<notin> set ?R'" using ax dj' bs by simp
      have c: "chain (l_next g') (hd (amerge ?le as bs @ [NULL])) (amerge ?le as bs)"
        using ih(2,3) ax xR by (simp add: R)
      have ld: "tail_load tail g' hn' = x"
      proof (cases tail)
        case None
        then show ?thesis using ih(4) by simp
      next
        case (Some t)
        then have "t \<notin> set as' \<union> set bs \<union> {x}" using tl as bs by auto
        then have "l_next g' t = l_next ?g1 t" using ih(5) by (simp add: frame_def)
        then show ?thesis using Some by simp
      qed
      have hn: "tail \<noteq> None \<longrightarrow> hn' = hn" using ih(4) by (cases tail) simp_all
      show ?thesis
        using step ih(1) ld c hn fr by (simp add: R)
    next
      case False
      let ?g1 = "tail_store tail y g" and ?hn1 = "tail_store_local tail y hn"
      let ?R' = "amerge ?le as bs'"
      have R: "amerge ?le as bs = y # ?R'" using False as bs by simp
      have nx: "l_next ?g1 y = l_next g y" by (rule l_next_tail_store [OF tl'(2)])
      have step: "merge_loop g hn tail a b = merge_loop ?g1 ?hn1 (Some y) x (l_next g y)"
        unfolding ax(1) by'(1) using False ax(2) by'(2)
        by (subst merge_loop.simps) (simp add: Let_def key_le_def tail_load_store nx)
      have p1: "chain (l_next ?g1) x as" using ca tl ax(1) by (simp add: chain_tail_store Int_Un_distrib)
      have p2: "chain (l_next ?g1) (l_next g y) bs'" using cb' tl'(4) by (simp add: chain_tail_store)
      have p3: "set as \<inter> set bs' = {}" using dj' as by auto
      have p4: "set_option (Some y) \<inter> (set as \<union> set bs') = {}" using by' dj' as by auto
      have len: "length as + length bs' < length as + length bs" using bs by simp
      from less.hyps [OF len p1 p2 p3 p4, of ?hn1] obtain g' hn' where
        ih: "merge_loop ?g1 ?hn1 (Some y) x (l_next g y) = Some (g', hn')"
          "l_next g' y = hd (?R' @ [NULL])" "chain (l_next g') (hd (?R' @ [NULL])) ?R'"
          "hn' = ?hn1" "frame ?g1 g' (set as \<union> set bs' \<union> {y})"
        by auto
      have f1: "frame g ?g1 (set_option tail)" by (rule frame_tail_store) simp
      have fr: "frame g g' (set as \<union> set bs \<union> set_option tail)"
        by (rule frame_trans [OF f1 ih(5)]) (auto simp: bs)
      have yR: "y \<notin> set ?R'" using by' dj' as by simp
      have c: "chain (l_next g') (hd (amerge ?le as bs @ [NULL])) (amerge ?le as bs)"
        using ih(2,3) by' yR by (simp add: R)
      have ld: "tail_load tail g' hn' = y"
      proof (cases tail)
        case None
        then show ?thesis using ih(4) by simp
      next
        case (Some t)
        then have "t \<notin> set as \<union> set bs' \<union> {y}" using tl as bs by auto
        then have "l_next g' t = l_next ?g1 t" using ih(5) by (simp add: frame_def)
        then show ?thesis using Some by simp
      qed
      have hn: "tail \<noteq> None \<longrightarrow> hn' = hn" using ih(4) by (cases tail) simp_all
      show ?thesis
        using step ih(1) ld c hn fr by (simp add: R)
    qed
  qed
qed

text \<open>
  What the sort needs of a merge function: on two disjoint chains it returns the chain
  of their merge, changing nothing but \<^verbatim>\<open>next\<close> links of their nodes.
\<close>

definition merge_ok :: "(heap \<Rightarrow> ptr \<Rightarrow> ptr \<Rightarrow> (heap \<times> ptr) option) \<Rightarrow> bool" where
  "merge_ok mrg =
     (\<forall>g a b as bs. chain (l_next g) a as \<and> chain (l_next g) b bs \<and> set as \<inter> set bs = {} \<longrightarrow>
        (\<exists>g' r. mrg g a b = Some (g', r) \<and> chain (l_next g') r (amerge (key_le g) as bs) \<and>
                frame g g' (set as \<union> set bs)))"

lemma merge_okD:
  assumes "merge_ok mrg" "chain (l_next g) a as" "chain (l_next g) b bs" "set as \<inter> set bs = {}"
  obtains g' r where "mrg g a b = Some (g', r)" "chain (l_next g') r (amerge (key_le g) as bs)"
    "frame g g' (set as \<union> set bs)"
  using assms unfolding merge_ok_def by blast

lemma merge_ok_merge: "merge_ok merge"
  unfolding merge_ok_def
proof (intro allI impI, elim conjE)
  fix g :: heap and a b as bs
  assume a: "chain (l_next g) a as" "chain (l_next g) b bs" "set as \<inter> set bs = {}"
  from merge_loop_chain [OF a, of None NULL] obtain g' hn' where
    "merge_loop g NULL None a b = Some (g', hn')"
    "hn' = hd (amerge (key_le g) as bs @ [NULL])"
    "chain (l_next g') (hd (amerge (key_le g) as bs @ [NULL])) (amerge (key_le g) as bs)"
    "frame g g' (set as \<union> set bs \<union> set_option None)" by auto
  then show "\<exists>g' r. merge g a b = Some (g', r) \<and> chain (l_next g') r (amerge (key_le g) as bs) \<and>
      frame g g' (set as \<union> set bs)"
    by (auto simp: merge_def)
qed

lemma merge_loop_v0_chain:
  assumes "chain (l_next g) a as" "chain (l_next g) b bs" "set as \<inter> set bs = {}"
    "set_option tail \<inter> (set as \<union> set bs) = {}" "as \<noteq> []" "bs \<noteq> []"
  shows "\<exists>g' hp'. merge_loop_v0 g hp tail a b = Some (g', hp') \<and>
      tail_load tail g' hp' = hd (amerge (key_le g) as bs @ [NULL]) \<and>
      chain (l_next g') (hd (amerge (key_le g) as bs @ [NULL])) (amerge (key_le g) as bs) \<and>
      (tail \<noteq> None \<longrightarrow> hp' = hp) \<and> frame g g' (set as \<union> set bs \<union> set_option tail)"
  using assms
proof (induction "length as + length bs" arbitrary: g hp tail a b as bs rule: less_induct)
  case less
  note ca = less.prems(1) and cb = less.prems(2) and dj = less.prems(3) and tl = less.prems(4)
  let ?le = "key_le g"
  from less.prems(5,6) obtain x as' y bs' where as: "as = x # as'" and bs: "bs = y # bs'"
    by (cases as; cases bs) auto
  from ca cb as bs have ax: "a = x" "x \<noteq> NULL" "x \<notin> set as'" and ca': "chain (l_next g) (l_next g x) as'"
    and by': "b = y" "y \<noteq> NULL" "y \<notin> set bs'" and cb': "chain (l_next g) (l_next g y) bs'"
    by auto
  from dj as bs have dj': "x \<noteq> y" "x \<notin> set bs'" "y \<notin> set as'" "set as' \<inter> set bs' = {}" by auto
  from tl as bs have tl': "set_option tail \<inter> {x} = {}" "set_option tail \<inter> {y} = {}"
    "set_option tail \<inter> set as' = {}" "set_option tail \<inter> set bs' = {}" by auto
  show ?case
  proof (cases "?le x y")
    case True
    let ?g1 = "tail_store tail x g" and ?hp1 = "tail_store_local tail x hp"
    let ?R' = "amerge ?le as' bs"
    have R: "amerge ?le as bs = x # ?R'" using True as bs by simp
    have nx: "l_next ?g1 x = l_next g x" by (rule l_next_tail_store [OF tl'(1)])
    have f1: "frame g ?g1 (set_option tail)" by (rule frame_tail_store) simp
    have p2: "chain (l_next ?g1) y bs" using cb tl by'(1) by (simp add: chain_tail_store Int_Un_distrib)
    have ld1: "tail_load tail ?g1 ?hp1 = x" by (rule tail_load_store)
    show ?thesis
    proof (cases "as' = []")
      case Nil: True
      then have a1: "l_next g x = NULL" using ca' by simp
      let ?g' = "set_next x y ?g1"
      have 1: "merge_loop_v0 g hp tail a b = Some (?g', ?hp1)"
        unfolding ax(1) by'(1) using True a1
        by (subst merge_loop_v0.simps) (simp add: Let_def key_le_def nx)
      have R2: "amerge ?le as bs = x # bs" using R Nil by simp
      have xb: "x \<notin> set bs" using dj' bs by simp
      then have "chain (l_next ?g') y bs" using p2 by simp
      then have c: "chain (l_next ?g') (hd (amerge ?le as bs @ [NULL])) (amerge ?le as bs)"
        unfolding R2 using ax(2) xb by simp
      have ld: "tail_load tail ?g' ?hp1 = x"
        using ld1 tl'(1) by (cases tail) auto
      have fr: "frame g ?g' (set as \<union> set bs \<union> set_option tail)"
        by (rule frame_trans [OF f1 frame_set_next [of x "{x}"]]) (auto simp: as)
      have hp: "tail \<noteq> None \<longrightarrow> ?hp1 = hp" by (cases tail) simp_all
      show ?thesis using 1 c ld fr hp by (simp add: R2)
    next
      case False
      then have a1: "l_next g x \<noteq> NULL" using chain_Nil_iff [OF ca'] by simp
      have step: "merge_loop_v0 g hp tail a b = merge_loop_v0 ?g1 ?hp1 (Some x) (l_next g x) y"
        unfolding ax(1) by'(1) using True a1
        by (subst merge_loop_v0.simps) (simp add: Let_def key_le_def nx)
      have p1: "chain (l_next ?g1) (l_next g x) as'" using ca' tl'(3) by (simp add: chain_tail_store)
      have p3: "set as' \<inter> set bs = {}" using dj' bs by auto
      have p4: "set_option (Some x) \<inter> (set as' \<union> set bs) = {}" using ax dj' bs by auto
      have len: "length as' + length bs < length as + length bs" using as by simp
      from less.hyps [OF len p1 p2 p3 p4 False less.prems(6), of ?hp1] obtain g' hp' where
        ih: "merge_loop_v0 ?g1 ?hp1 (Some x) (l_next g x) y = Some (g', hp')"
          "l_next g' x = hd (?R' @ [NULL])" "chain (l_next g') (hd (?R' @ [NULL])) ?R'"
          "hp' = ?hp1" "frame ?g1 g' (set as' \<union> set bs \<union> {x})"
        by auto
      have fr: "frame g g' (set as \<union> set bs \<union> set_option tail)"
        by (rule frame_trans [OF f1 ih(5)]) (auto simp: as)
      have xR: "x \<notin> set ?R'" using ax dj' bs by simp
      have c: "chain (l_next g') (hd (amerge ?le as bs @ [NULL])) (amerge ?le as bs)"
        using ih(2,3) ax xR by (simp add: R)
      have ld: "tail_load tail g' hp' = x"
      proof (cases tail)
        case None
        then show ?thesis using ih(4) by simp
      next
        case (Some t)
        then have "t \<notin> set as' \<union> set bs \<union> {x}" using tl as bs by auto
        then have "l_next g' t = l_next ?g1 t" using ih(5) by (simp add: frame_def)
        then show ?thesis using Some by simp
      qed
      have hp: "tail \<noteq> None \<longrightarrow> hp' = hp" using ih(4) by (cases tail) simp_all
      show ?thesis
        using step ih(1) ld c hp fr by (simp add: R)
    qed
  next
    case nle: False
    let ?g1 = "tail_store tail y g" and ?hp1 = "tail_store_local tail y hp"
    let ?R' = "amerge ?le as bs'"
    have R: "amerge ?le as bs = y # ?R'" using nle as bs by simp
    have nx: "l_next ?g1 y = l_next g y" by (rule l_next_tail_store [OF tl'(2)])
    have f1: "frame g ?g1 (set_option tail)" by (rule frame_tail_store) simp
    have p1: "chain (l_next ?g1) x as" using ca tl ax(1) by (simp add: chain_tail_store Int_Un_distrib)
    have ld1: "tail_load tail ?g1 ?hp1 = y" by (rule tail_load_store)
    show ?thesis
    proof (cases "bs' = []")
      case Nil: True
      then have b1: "l_next g y = NULL" using cb' by simp
      let ?g' = "set_next y x ?g1"
      have 1: "merge_loop_v0 g hp tail a b = Some (?g', ?hp1)"
        unfolding ax(1) by'(1) using nle b1
        by (subst merge_loop_v0.simps) (simp add: Let_def key_le_def nx)
      have R2: "amerge ?le as bs = y # as" using R Nil by simp
      have ya: "y \<notin> set as" using dj' as by simp
      then have "chain (l_next ?g') x as" using p1 by simp
      then have c: "chain (l_next ?g') (hd (amerge ?le as bs @ [NULL])) (amerge ?le as bs)"
        unfolding R2 using by'(2) ya by simp
      have ld: "tail_load tail ?g' ?hp1 = y"
        using ld1 tl'(2) by (cases tail) auto
      have fr: "frame g ?g' (set as \<union> set bs \<union> set_option tail)"
        by (rule frame_trans [OF f1 frame_set_next [of y "{y}"]]) (auto simp: bs)
      have hp: "tail \<noteq> None \<longrightarrow> ?hp1 = hp" by (cases tail) simp_all
      show ?thesis using 1 c ld fr hp by (simp add: R2)
    next
      case False
      then have b1: "l_next g y \<noteq> NULL" using chain_Nil_iff [OF cb'] by simp
      have step: "merge_loop_v0 g hp tail a b = merge_loop_v0 ?g1 ?hp1 (Some y) x (l_next g y)"
        unfolding ax(1) by'(1) using nle b1
        by (subst merge_loop_v0.simps) (simp add: Let_def key_le_def nx)
      have p2: "chain (l_next ?g1) (l_next g y) bs'" using cb' tl'(4) by (simp add: chain_tail_store)
      have p3: "set as \<inter> set bs' = {}" using dj' as by auto
      have p4: "set_option (Some y) \<inter> (set as \<union> set bs') = {}" using by' dj' as by auto
      have len: "length as + length bs' < length as + length bs" using bs by simp
      from less.hyps [OF len p1 p2 p3 p4 less.prems(5) False, of ?hp1] obtain g' hp' where
        ih: "merge_loop_v0 ?g1 ?hp1 (Some y) x (l_next g y) = Some (g', hp')"
          "l_next g' y = hd (?R' @ [NULL])" "chain (l_next g') (hd (?R' @ [NULL])) ?R'"
          "hp' = ?hp1" "frame ?g1 g' (set as \<union> set bs' \<union> {y})"
        by auto
      have fr: "frame g g' (set as \<union> set bs \<union> set_option tail)"
        by (rule frame_trans [OF f1 ih(5)]) (auto simp: bs)
      have yR: "y \<notin> set ?R'" using by' dj' as by simp
      have c: "chain (l_next g') (hd (amerge ?le as bs @ [NULL])) (amerge ?le as bs)"
        using ih(2,3) by' yR by (simp add: R)
      have ld: "tail_load tail g' hp' = y"
      proof (cases tail)
        case None
        then show ?thesis using ih(4) by simp
      next
        case (Some t)
        then have "t \<notin> set as \<union> set bs' \<union> {y}" using tl as bs by auto
        then have "l_next g' t = l_next ?g1 t" using ih(5) by (simp add: frame_def)
        then show ?thesis using Some by simp
      qed
      have hp: "tail \<noteq> None \<longrightarrow> hp' = hp" using ih(4) by (cases tail) simp_all
      show ?thesis
        using step ih(1) ld c hp fr by (simp add: R)
    qed
  qed
qed

lemma merge_ok_merge_v0: "merge_ok merge_v0"
  unfolding merge_ok_def
proof (intro allI impI, elim conjE)
  fix g :: heap and a b as bs
  assume a: "chain (l_next g) a as" "chain (l_next g) b bs" "set as \<inter> set bs = {}"
  show "\<exists>g' r. merge_v0 g a b = Some (g', r) \<and> chain (l_next g') r (amerge (key_le g) as bs) \<and>
      frame g g' (set as \<union> set bs)"
  proof (cases "as = [] \<or> bs = []")
    case True
    then have "a = NULL \<or> b = NULL" using a by auto
    moreover have "chain (l_next g) (if a \<noteq> NULL then a else b) (amerge (key_le g) as bs)"
      using True a by (cases "as = []") (auto dest: chain_NULL)
    ultimately show ?thesis by (auto simp: merge_v0_def)
  next
    case False
    then have ne: "as \<noteq> []" "bs \<noteq> []" "a \<noteq> NULL" "b \<noteq> NULL"
      using a chain_Nil_iff by auto
    from merge_loop_v0_chain [OF a _ ne(1,2), of None NULL] obtain g' hp' where
      "merge_loop_v0 g NULL None a b = Some (g', hp')"
      "hp' = hd (amerge (key_le g) as bs @ [NULL])"
      "chain (l_next g') (hd (amerge (key_le g) as bs @ [NULL])) (amerge (key_le g) as bs)"
      "frame g g' (set as \<union> set bs \<union> set_option None)" by auto
    then show ?thesis using ne by (auto simp: merge_v0_def)
  qed
qed

subsection \<open>The buckets on the heap\<close>

lemma frame_mono: "frame g g' S \<Longrightarrow> S \<subseteq> T \<Longrightarrow> frame g g' T"
  by (auto simp: frame_def)

lemma nth_subset_concat:
  assumes "i < length rs"
  shows "set (rs ! i) \<subseteq> set (concat rs)"
proof -
  have "rs ! i \<in> set rs" using assms by simp
  then show ?thesis by auto
qed

lemma distinct_amerge [simp]: "distinct (amerge le as bs) = distinct (as @ bs)"
  by (rule mset_eq_imp_distinct_iff) simp

lemma distinct_concat_nth:
  "distinct (concat rs) \<Longrightarrow> i < length rs \<Longrightarrow> j < length rs \<Longrightarrow> i \<noteq> j \<Longrightarrow>
   set (rs ! i) \<inter> set (rs ! j) = {}"
proof (induction rs arbitrary: i j)
  case Nil
  then show ?case by simp
next
  case (Cons r rs)
  show ?case
  proof (cases i)
    case 0
    then obtain j' where j: "j = Suc j'" "j' < length rs" using Cons.prems by (cases j) auto
    then have "set (rs ! j') \<subseteq> set (concat rs)" by (intro nth_subset_concat)
    then show ?thesis using Cons.prems(1) 0 j by auto
  next
    case (Suc i')
    show ?thesis
    proof (cases j)
      case 0
      have "set (rs ! i') \<subseteq> set (concat rs)" using Suc Cons.prems by (intro nth_subset_concat) simp
      then show ?thesis using Cons.prems(1) 0 Suc by auto
    next
      case j: (Suc j')
      have "set (rs ! i') \<inter> set (rs ! j') = {}"
        using Cons.prems Suc j by (intro Cons.IH) simp_all
      then show ?thesis using Suc j by simp
    qed
  qed
qed

lemma mset_concat_update:
  "i < length rs \<Longrightarrow> mset (concat (rs[i := ys])) + mset (rs ! i) = mset (concat rs) + mset ys"
proof (induction rs arbitrary: i)
  case Nil
  then show ?case by simp
next
  case (Cons r rs)
  then show ?case by (cases i) (simp_all add: ac_simps)
qed

lemma mset_concat_clear:
  "i < length rs \<Longrightarrow> mset (concat (rs[i := []]) @ amerge le (rs ! i) r) = mset (concat rs @ r)"
  using mset_concat_update [of i rs "[]"] by (simp add: ac_simps)

lemma mset_concat_store:
  "i < length rs \<Longrightarrow> rs ! i = [] \<Longrightarrow> mset (concat (rs[i := r])) = mset (concat rs @ r)"
  using mset_concat_update [of i rs r] by simp

text \<open>
  \<open>runs_ok g pending rs\<close>: the array \<open>pending\<close> holds the chains of the runs \<open>rs\<close>.
\<close>

definition runs_ok :: "heap \<Rightarrow> ptr list \<Rightarrow> ptr list list \<Rightarrow> bool" where
  "runs_ok g pending rs =
     (length pending = SORT_BUFSIZE \<and> length rs = SORT_BUFSIZE \<and>
      (\<forall>i<SORT_BUFSIZE. chain (l_next g) (pending ! i) (rs ! i)))"

lemma runs_okD:
  assumes "runs_ok g pending rs"
  shows "length pending = SORT_BUFSIZE" "length rs = SORT_BUFSIZE"
    "i < SORT_BUFSIZE \<Longrightarrow> chain (l_next g) (pending ! i) (rs ! i)"
  using assms by (simp_all add: runs_ok_def)

lemma runs_ok_update:
  "runs_ok g pending rs \<Longrightarrow> chain (l_next g) p r \<Longrightarrow> runs_ok g (pending[i := p]) (rs[i := r])"
  by (cases "i < SORT_BUFSIZE") (auto simp: runs_ok_def nth_list_update)

lemma runs_ok_frame:
  assumes ok: "runs_ok g pending rs" and fr: "frame g g' S" and dj: "set (concat rs) \<inter> S = {}"
  shows "runs_ok g' pending rs"
  unfolding runs_ok_def
proof (intro conjI allI impI)
  show "length pending = SORT_BUFSIZE" "length rs = SORT_BUFSIZE" using ok by (simp_all add: runs_ok_def)
  fix i assume i: "i < SORT_BUFSIZE"
  then have "set (rs ! i) \<subseteq> set (concat rs)" using runs_okD(2) [OF ok] by (intro nth_subset_concat) simp
  then have "set (rs ! i) \<inter> S = {}" using dj by auto
  then show "chain (l_next g') (pending ! i) (rs ! i)"
    by (rule chain_frame [OF runs_okD(3) [OF ok i] fr])
qed

lemma acarry_low:
  "length rs = SORT_BUFSIZE \<Longrightarrow> i \<le> SORT_BUFSIZE \<Longrightarrow> (\<And>j. j < i \<Longrightarrow> rs ! j = []) \<Longrightarrow>
   acarry le rs r i = (rs', r', i') \<Longrightarrow>
   length rs' = SORT_BUFSIZE \<and> i' \<le> SORT_BUFSIZE \<and> (\<forall>j<i'. rs' ! j = []) \<and>
   (i' < SORT_BUFSIZE \<longrightarrow> rs' ! i' = [])"
proof (induction le rs r i rule: acarry.induct)
  case (1 le rs r i)
  show ?case
  proof (cases "i < SORT_BUFSIZE \<and> rs ! i \<noteq> []")
    case True
    let ?rs = "rs[i := []]" and ?r = "amerge le (rs ! i) r"
    have res': "acarry le ?rs ?r (i + 1) = (rs', r', i')"
      using "1.prems"(4) True by (subst (asm) acarry.simps) simp
    have a5: "?rs ! j = []" if "j < i + 1" for j
      using that "1.prems"(3) [of j] "1.prems"(1) True by (cases "j = i") simp_all
    show ?thesis
      by (rule "1.IH" [OF True _ _ a5 res']) (use True "1.prems"(1) in simp_all)
  next
    case False
    then have "rs' = rs" "r' = r" "i' = i"
      using "1.prems"(4) by (subst (asm) acarry.simps; simp)+
    then show ?thesis
      using "1.prems"(1,2,3) False by auto
  qed
qed

lemma carry_refines:
  assumes mrg: "merge_ok mrg"
  shows "le = key_le g \<Longrightarrow> runs_ok g pending rs \<Longrightarrow> chain (l_next g) result r \<Longrightarrow>
    distinct (concat rs @ r) \<Longrightarrow> acarry le rs r i = (rs', r', i') \<Longrightarrow>
    \<exists>g' pending' result'. carry mrg g pending result i = Some (g', pending', result', i') \<and>
      runs_ok g' pending' rs' \<and> chain (l_next g') result' r' \<and>
      mset (concat rs' @ r') = mset (concat rs @ r) \<and> frame g g' (set (concat rs @ r))"
proof (induction le rs r i arbitrary: g pending result rule: acarry.induct)
  case (1 le rs r i)
  note le = "1.prems"(1) and ok = "1.prems"(2) and cr = "1.prems"(3) and dj = "1.prems"(4)
    and res = "1.prems"(5)
  note len = runs_okD(1,2) [OF ok]
  show ?case
  proof (cases "i < SORT_BUFSIZE \<and> rs ! i \<noteq> []")
    case True
    then have i: "i < SORT_BUFSIZE" "i < length rs" and ne: "rs ! i \<noteq> []" using len by simp_all
    let ?rs = "rs[i := []]" and ?r = "amerge le (rs ! i) r"
    have ci: "chain (l_next g) (pending ! i) (rs ! i)" by (rule runs_okD(3) [OF ok i(1)])
    then have pn: "pending ! i \<noteq> NULL" using ne chain_Nil_iff by blast
    have sub: "set (rs ! i) \<subseteq> set (concat rs)" by (rule nth_subset_concat [OF i(2)])
    then have d1: "set (rs ! i) \<inter> set r = {}" using dj by auto
    from merge_okD [OF mrg ci cr d1] obtain g1 r1 where
      m: "mrg g (pending ! i) result = Some (g1, r1)" "chain (l_next g1) r1 ?r"
        "frame g g1 (set (rs ! i) \<union> set r)"
      unfolding le by blast
    have res': "acarry le ?rs ?r (i + 1) = (rs', r', i')"
      using res True by (subst (asm) acarry.simps) simp
    have le1: "le = key_le g1" using frame_key_le [OF m(3)] le by simp
    have ok1: "runs_ok g1 (pending[i := NULL]) ?rs"
      unfolding runs_ok_def
    proof (intro conjI allI impI)
      show "length (pending[i := NULL]) = SORT_BUFSIZE" "length ?rs = SORT_BUFSIZE"
        using len by simp_all
      fix j assume j: "j < SORT_BUFSIZE"
      show "chain (l_next g1) (pending[i := NULL] ! j) (?rs ! j)"
      proof (cases "j = i")
        case True
        then show ?thesis using i len by simp
      next
        case False
        have cj: "chain (l_next g) (pending ! j) (rs ! j)" by (rule runs_okD(3) [OF ok j])
        have "set (rs ! j) \<inter> set (rs ! i) = {}"
          using dj j i False len by (intro distinct_concat_nth) simp_all
        moreover have "set (rs ! j) \<subseteq> set (concat rs)"
          using j len by (intro nth_subset_concat) simp
        ultimately have "set (rs ! j) \<inter> (set (rs ! i) \<union> set r) = {}" using dj by auto
        from chain_frame [OF cj m(3) this] show ?thesis using False by simp
      qed
    qed
    have ms: "mset (concat ?rs @ ?r) = mset (concat rs @ r)" by (rule mset_concat_clear [OF i(2)])
    then have dj1: "distinct (concat ?rs @ ?r)" using dj mset_eq_imp_distinct_iff by blast
    from "1.IH" [OF True le1 ok1 m(2) dj1 res'] obtain g' pending' result' where
      ih: "carry mrg g1 (pending[i := NULL]) r1 (i + 1) = Some (g', pending', result', i')"
        "runs_ok g' pending' rs'" "chain (l_next g') result' r'"
        "mset (concat rs' @ r') = mset (concat ?rs @ ?r)" "frame g1 g' (set (concat ?rs @ ?r))"
      by blast
    have step: "carry mrg g pending result i = carry mrg g1 (pending[i := NULL]) r1 (i + 1)"
      using i(1) pn m(1) by (subst carry.simps) simp
    have se: "set (concat ?rs @ ?r) = set (concat rs @ r)" by (rule mset_eq_setD [OF ms])
    have fr: "frame g g' (set (concat rs @ r))"
      by (rule frame_trans [OF m(3) ih(5)]) (use sub se in auto)
    show ?thesis using step ih(1,2,3,4) ms fr by simp
  next
    case False
    then have e: "rs' = rs" "r' = r" "i' = i"
      using res by (subst (asm) acarry.simps; simp)+
    have nb: "\<not> (i < SORT_BUFSIZE \<and> pending ! i \<noteq> NULL)"
    proof
      assume a: "i < SORT_BUFSIZE \<and> pending ! i \<noteq> NULL"
      then have "chain (l_next g) (pending ! i) (rs ! i)" using runs_okD(3) [OF ok] by simp
      then have "rs ! i \<noteq> []" using a by auto
      with a False show False by simp
    qed
    have "carry mrg g pending result i = Some (g, pending, result, i)"
      by (subst carry.simps) (simp only: nb if_False)
    then show ?thesis using e ok cr by simp
  qed
qed

lemma sort_loop_refines:
  assumes mrg: "merge_ok mrg"
  shows "runs_ok g pending rs \<Longrightarrow> chain (l_next g) result rest \<Longrightarrow>
    distinct (concat rs @ rest) \<Longrightarrow>
    \<exists>g' pending'. sort_loop mrg g pending result = Some (g', pending') \<and>
      runs_ok g' pending' (foldl (ainsert (key_le g)) rs rest) \<and>
      mset (concat (foldl (ainsert (key_le g)) rs rest)) = mset (concat rs @ rest) \<and>
      frame g g' (set (concat rs @ rest))"
proof (induction rest arbitrary: g pending result rs)
  case Nil
  then have "result = NULL" by simp
  then have "sort_loop mrg g pending result = Some (g, pending)"
    by (subst sort_loop.simps) simp
  then show ?case using Nil by simp
next
  case (Cons x rest)
  note ok = Cons.prems(1) and cr = Cons.prems(2) and dj = Cons.prems(3)
  let ?le = "key_le g"
  from cr have x: "result = x" "x \<noteq> NULL" "x \<notin> set rest" and cn: "chain (l_next g) (l_next g x) rest"
    by simp_all
  let ?h1 = "set_next x NULL g"
  have f1: "frame g ?h1 {x}" by (rule frame_set_next) simp
  have xr: "x \<notin> set (concat rs)" using dj by auto
  have ok1: "runs_ok ?h1 pending rs" by (rule runs_ok_frame [OF ok f1]) (use xr in simp)
  have c1: "chain (l_next ?h1) x [x]" using x by simp
  have d1: "distinct (concat rs @ [x])" using dj by auto
  obtain rs1 r1 i1 where res: "acarry ?le rs [x] 0 = (rs1, r1, i1)"
    by (cases "acarry ?le rs [x] 0") auto
  have le1: "?le = key_le ?h1" by simp
  from carry_refines [OF mrg le1 ok1 c1 d1 res] obtain g2 pending2 result2 where
    c: "carry mrg ?h1 pending x 0 = Some (g2, pending2, result2, i1)"
      "runs_ok g2 pending2 rs1" "chain (l_next g2) result2 r1"
      "mset (concat rs1 @ r1) = mset (concat rs @ [x])" "frame ?h1 g2 (set (concat rs @ [x]))"
    by blast
  define k where "k = (if i1 = SORT_BUFSIZE then i1 - 1 else i1)"
  have low: "length rs1 = SORT_BUFSIZE \<and> i1 \<le> SORT_BUFSIZE \<and> (\<forall>j<i1. rs1 ! j = []) \<and>
      (i1 < SORT_BUFSIZE \<longrightarrow> rs1 ! i1 = [])"
    by (rule acarry_low [OF runs_okD(2) [OF ok] _ _ res]) simp_all
  have k: "k < length rs1" "rs1 ! k = []"
  proof -
    show "k < length rs1" using low by (simp add: k_def SORT_BUFSIZE_def)
    show "rs1 ! k = []"
    proof (cases "i1 = SORT_BUFSIZE")
      case True
      then have "k < i1" by (simp add: k_def SORT_BUFSIZE_def)
      then show ?thesis using low by simp
    next
      case False
      then show ?thesis using low by (simp add: k_def)
    qed
  qed
  have ins: "ainsert ?le rs x = rs1[k := r1]" by (simp add: ainsert_def res k_def)
  have ok2: "runs_ok g2 (pending2[k := result2]) (rs1[k := r1])"
    by (rule runs_ok_update [OF c(2,3)])
  have ms: "mset (concat (rs1[k := r1])) = mset (concat rs @ [x])"
    using mset_concat_store [OF k, of r1] c(4) by simp
  have se: "set (concat (rs1[k := r1])) = set (concat rs @ [x])" by (rule mset_eq_setD [OF ms])
  have di: "distinct (concat (rs1[k := r1]))" using ms d1 mset_eq_imp_distinct_iff by blast
  have f2: "frame g g2 (set (concat rs @ [x]))"
    by (rule frame_trans [OF f1 c(5)]) auto
  have dr: "set rest \<inter> set (concat rs @ [x]) = {}" using dj by auto
  have cn2: "chain (l_next g2) (l_next g x) rest" by (rule chain_frame [OF cn f2 dr])
  have d2: "distinct (concat (rs1[k := r1]) @ rest)"
    using di dj dr se by auto
  have le2: "key_le g2 = ?le" by (rule frame_key_le [OF f2])
  from Cons.IH [OF ok2 cn2 d2] obtain g' pending' where
    ih: "sort_loop mrg g2 (pending2[k := result2]) (l_next g x) = Some (g', pending')"
      "runs_ok g' pending' (foldl (ainsert ?le) (rs1[k := r1]) rest)"
      "mset (concat (foldl (ainsert ?le) (rs1[k := r1]) rest)) = mset (concat (rs1[k := r1]) @ rest)"
      "frame g2 g' (set (concat (rs1[k := r1]) @ rest))"
    unfolding le2 by auto
  have step: "sort_loop mrg g pending result = sort_loop mrg g2 (pending2[k := result2]) (l_next g x)"
    unfolding x(1) using x(2) c(1) by (subst sort_loop.simps) (simp add: Let_def k_def)
  have fr: "frame g g' (set (concat rs @ x # rest))"
    by (rule frame_trans [OF f2 ih(4)]) (use se in auto)
  have "mset (concat (foldl (ainsert ?le) (rs1[k := r1]) rest)) = mset (concat rs @ x # rest)"
    using ih(3) ms by simp
  then show ?case using step ih(1,2) fr by (simp add: ins)
qed

lemma merge_pending_refines:
  assumes mrg: "merge_ok mrg"
  shows "le = key_le g \<Longrightarrow> length rs = SORT_BUFSIZE \<Longrightarrow>
    (\<And>j. i \<le> j \<Longrightarrow> j < n \<Longrightarrow> chain (l_next g) (pending ! j) (rs ! j)) \<Longrightarrow>
    chain (l_next g) result r \<Longrightarrow> distinct (concat (drop i rs) @ r) \<Longrightarrow> n \<le> SORT_BUFSIZE \<Longrightarrow>
    \<exists>g' result'. merge_pending mrg n g pending result i = Some (g', result') \<and>
      chain (l_next g') result' (amerge_pending le n rs r i) \<and>
      frame g g' (set (concat (take n rs)) \<union> set r)"
proof (induction le n rs r i arbitrary: g result rule: amerge_pending.induct)
  case (1 le n rs r i)
  note le = "1.prems"(1) and len = "1.prems"(2) and ch = "1.prems"(3) and cr = "1.prems"(4)
    and dj = "1.prems"(5) and n = "1.prems"(6)
  show ?case
  proof (cases "i < n")
    case True
    then have i: "i < SORT_BUFSIZE" "i < length rs" using n len by simp_all
    let ?r = "amerge le (rs ! i) r"
    have dr: "drop i rs = rs ! i # drop (Suc i) rs" using i(2) by (simp add: Cons_nth_drop_Suc)
    have dj': "distinct (rs ! i)" "distinct (concat (drop (Suc i) rs))" "distinct r"
      "set (rs ! i) \<inter> set (concat (drop (Suc i) rs)) = {}" "set (rs ! i) \<inter> set r = {}"
      "set (concat (drop (Suc i) rs)) \<inter> set r = {}"
      using dj unfolding dr by auto
    have ci: "chain (l_next g) (pending ! i) (rs ! i)" by (rule ch) (use True in simp_all)
    from merge_okD [OF mrg ci cr dj'(5)] obtain g1 r1 where
      m: "mrg g (pending ! i) result = Some (g1, r1)" "chain (l_next g1) r1 ?r"
        "frame g g1 (set (rs ! i) \<union> set r)"
      unfolding le by blast
    have le1: "le = key_le g1" using frame_key_le [OF m(3)] le by simp
    have "\<exists>g' result'. merge_pending mrg n g1 pending r1 (i + 1) = Some (g', result') \<and>
      chain (l_next g') result' (amerge_pending le n rs ?r (i + 1)) \<and>
      frame g1 g' (set (concat (take n rs)) \<union> set ?r)"
    proof (rule "1.IH" [OF True le1 len _ m(2) _ n])
      show "distinct (concat (drop (i + 1) rs) @ ?r)" using dj' by auto
      fix j assume j: "i + 1 \<le> j" "j < n"
      have cj: "chain (l_next g) (pending ! j) (rs ! j)" by (rule ch) (use j in simp_all)
      have "j - Suc i < length (drop (Suc i) rs)" using j n len by simp
      then have "set (drop (Suc i) rs ! (j - Suc i)) \<subseteq> set (concat (drop (Suc i) rs))"
        by (rule nth_subset_concat)
      then have "set (rs ! j) \<subseteq> set (concat (drop (Suc i) rs))" using j n len by simp
      then have "set (rs ! j) \<inter> (set (rs ! i) \<union> set r) = {}" using dj'(4,6) by auto
      from chain_frame [OF cj m(3) this] show "chain (l_next g1) (pending ! j) (rs ! j)" .
    qed
    then obtain g' result' where
      ih: "merge_pending mrg n g1 pending r1 (i + 1) = Some (g', result')"
        "chain (l_next g') result' (amerge_pending le n rs ?r (i + 1))"
        "frame g1 g' (set (concat (take n rs)) \<union> set ?r)" by blast
    have step: "merge_pending mrg n g pending result i = merge_pending mrg n g1 pending r1 (i + 1)"
      using True m(1) by (subst merge_pending.simps) simp
    have e: "amerge_pending le n rs r i = amerge_pending le n rs ?r (i + 1)"
      using True by (subst amerge_pending.simps) simp
    have "i < length (take n rs)" using True i by simp
    then have "set (take n rs ! i) \<subseteq> set (concat (take n rs))" by (rule nth_subset_concat)
    then have sub: "set (rs ! i) \<subseteq> set (concat (take n rs))" using True by simp
    have fr: "frame g g' (set (concat (take n rs)) \<union> set r)"
      by (rule frame_trans [OF m(3) ih(3)]) (use sub in auto)
    show ?thesis using step ih(1,2) e fr by simp
  next
    case False
    then show ?thesis
      using cr by (subst merge_pending.simps, subst amerge_pending.simps) simp
  qed
qed

subsection \<open>Restoring the back links\<close>

text \<open>
  \<open>lframe g g' N P\<close>: the heap \<open>g'\<close> differs from \<open>g\<close> at most in the \<^verbatim>\<open>next\<close> links of
  the nodes in \<open>N\<close> and the \<^verbatim>\<open>prev\<close> links of the nodes in \<open>P\<close>.
\<close>

definition lframe :: "heap \<Rightarrow> heap \<Rightarrow> ptr set \<Rightarrow> ptr set \<Rightarrow> bool" where
  "lframe g g' N P =
     ((\<forall>q. q \<notin> N \<longrightarrow> l_next g' q = l_next g q) \<and> (\<forall>q. q \<notin> P \<longrightarrow> l_prev g' q = l_prev g q) \<and>
      e_value g' = e_value g \<and> c_str g' = c_str g \<and> live g' = live g)"

lemma lframe_refl [simp]: "lframe g g N P"
  by (simp add: lframe_def)

lemma lframe_trans:
  "lframe g g1 N P \<Longrightarrow> lframe g1 g2 N' P' \<Longrightarrow> N \<union> N' \<subseteq> M \<Longrightarrow> P \<union> P' \<subseteq> Q \<Longrightarrow> lframe g g2 M Q"
  unfolding lframe_def by (metis Un_iff subsetD)

lemma frame_lframe: "frame g g' S \<Longrightarrow> lframe g g' S {}"
  by (simp add: frame_def lframe_def)

lemma lframe_set_next: "p \<in> N \<Longrightarrow> lframe g (set_next p q g) N P"
  by (auto simp: lframe_def)

lemma lframe_set_prev: "p \<in> P \<Longrightarrow> lframe g (set_prev p q g) N P"
  by (auto simp: lframe_def)

lemma lframe_key_le: "lframe g g' N P \<Longrightarrow> key_le g' = key_le g"
  by (simp add: lframe_def key_le_def key_def fun_eq_iff)

lemma lframe_next: "lframe g g' N P \<Longrightarrow> q \<notin> N \<Longrightarrow> l_next g' q = l_next g q"
  by (simp add: lframe_def)

lemma lframe_prev: "lframe g g' N P \<Longrightarrow> q \<notin> P \<Longrightarrow> l_prev g' q = l_prev g q"
  by (simp add: lframe_def)

text \<open>\<open>blinks f t xs\<close>: along \<open>t, xs\<close> every node's \<open>f\<close> is the node before it.\<close>

fun blinks :: "(ptr \<Rightarrow> ptr) \<Rightarrow> ptr \<Rightarrow> ptr list \<Rightarrow> bool" where
  "blinks f t [] = True"
| "blinks f t (x # xs) = (f x = t \<and> blinks f x xs)"

lemma back_cong: "(\<And>x. x \<in> set xs \<Longrightarrow> g x = f x) \<Longrightarrow> blinks g t xs = blinks f t xs"
  by (induction xs arbitrary: t) auto

lemma back_append: "blinks f t (xs @ ys) = (blinks f t xs \<and> blinks f (last (t # xs)) ys)"
  by (induction xs arbitrary: t) auto

lemma chain_last: "chain f (f t) (xs @ ys) \<Longrightarrow> chain f (f (last (t # xs))) ys"
  by (induction xs arbitrary: t) auto

lemma link_prev_loop_back:
  "chain (l_next h) (l_next h t) R \<Longrightarrow>
   \<exists>h'. link_prev_loop h t = Some (h', last (t # R)) \<and> blinks (l_prev h') t R \<and>
     lframe h h' {} (set R)"
proof (induction R arbitrary: h t)
  case Nil
  then have "l_next h t = NULL" by simp
  then have "link_prev_loop h t = Some (h, t)" by (subst link_prev_loop.simps) simp
  then show ?case by simp
next
  case (Cons x R)
  then have x: "l_next h t = x" "x \<noteq> NULL" "x \<notin> set R" and c: "chain (l_next h) (l_next h x) R"
    by simp_all
  let ?h1 = "set_prev x t h"
  have step: "link_prev_loop h t = link_prev_loop ?h1 x"
    using x by (subst link_prev_loop.simps) (simp add: Let_def)
  have "chain (l_next ?h1) (l_next ?h1 x) R" using c by simp
  from Cons.IH [OF this] obtain h' where
    ih: "link_prev_loop ?h1 x = Some (h', last (x # R))" "blinks (l_prev h') x R"
      "lframe ?h1 h' {} (set R)" by blast
  have "l_prev h' x = l_prev ?h1 x" by (rule lframe_prev [OF ih(3) x(3)])
  then have b: "blinks (l_prev h') t (x # R)" using ih(2) by simp
  have fr: "lframe h h' {} (set (x # R))"
    by (rule lframe_trans [OF lframe_set_prev [of x "{x}"] ih(3)]) auto
  show ?case using step ih(1) b fr by simp
qed

lemma path_close:
  "chain f (f t) R \<Longrightarrow> t \<notin> set R \<Longrightarrow> path (f(last (t # R) := q)) t R q"
proof (induction R arbitrary: t)
  case Nil
  then show ?case by simp
next
  case (Cons x R)
  then have x: "f t = x" "x \<notin> set R" "t \<noteq> x" "t \<notin> set R" and c: "chain f (f x) R" by auto
  have "last (x # R) \<in> set (x # R)" by (rule last_in_set) simp
  then have "t \<noteq> last (x # R)" using x by auto
  then show ?case using Cons.IH [OF c x(2)] x(1) by simp
qed

lemma back_path:
  "blinks f t R \<Longrightarrow> R \<noteq> [] \<Longrightarrow> path f (last R) (rev (butlast R)) t"
proof (induction R arbitrary: t)
  case Nil
  then show ?case by simp
next
  case (Cons x R)
  show ?case
  proof (cases "R = []")
    case True
    then show ?thesis using Cons.prems by simp
  next
    case False
    then have "path f (last R) (rev (butlast R)) x" using Cons by simp
    then show ?thesis using False Cons.prems by (simp add: path_snoc)
  qed
qed

lemma path_back_close:
  assumes b: "blinks f t R" and d: "distinct (t # R)"
  shows "path (f(t := last (t # R))) t (rev R) t"
proof (cases "R = []")
  case True
  then show ?thesis by simp
next
  case False
  then have r: "rev R = last R # rev (butlast R)"
    by (metis append_butlast_last_id rev.simps(2) rev_append rev_rev_ident rev_singleton_conv append_Cons append_Nil)
  have "last R \<in> set R" using False by simp
  then have t: "t \<noteq> last R" using d by auto
  have "set (butlast R) \<subseteq> set R" by (auto dest: in_set_butlastD)
  then have t2: "t \<notin> set (rev (butlast R))" using d by auto
  have "path f (last R) (rev (butlast R)) t" by (rule back_path [OF b False])
  then have "path (f(t := last R)) (last R) (rev (butlast R)) t" using t t2 by simp
  then show ?thesis using False by (simp add: r)
qed

lemma close_list_dlist:
  assumes c: "chain (l_next h) (l_next h t) R" and b: "blinks (l_prev h) t R"
    and d: "t \<notin> set R" and t: "t \<noteq> NULL"
  shows "dlist (close_list h t (last (t # R))) t R"
proof -
  have p: "NULL \<notin> set R" "distinct R" using chain_props [OF c] by simp_all
  have 1: "path ((l_next h)(last (t # R) := t)) t R t" by (rule path_close [OF c d])
  have 2: "path ((l_prev h)(t := last (t # R))) t (rev R) t"
    by (rule path_back_close [OF b]) (use d p in simp)
  show ?thesis
    unfolding dlist_def close_list_def using t p d 1 2 by simp
qed

lemma lframe_close_list: "lframe h (close_list h t n) {n} {t}"
  by (auto simp: lframe_def close_list_def)

text \<open>The loop of \<^verbatim>\<open>merge_final\<close> links a front part \<open>P\<close> of the merge in both directions.\<close>

lemma merge_final_loop_chain:
  assumes "chain (l_next g) a as" "chain (l_next g) b bs" "set as \<inter> set bs = {}"
    "t \<notin> set as \<union> set bs"
  shows "\<exists>g' P S. merge_final_loop g t a b = Some (g', last (t # P)) \<and>
      amerge (key_le g) as bs = P @ S \<and> chain (l_next g') (l_next g' t) (P @ S) \<and>
      blinks (l_prev g') t P \<and> lframe g g' (insert t (set as \<union> set bs)) (set P)"
  using assms
proof (induction "length as + length bs" arbitrary: g t a b as bs rule: less_induct)
  case less
  note ca = less.prems(1) and cb = less.prems(2) and dj = less.prems(3) and tn = less.prems(4)
  let ?le = "key_le g"
  show ?case
  proof (cases "as = [] \<or> bs = []")
    case True
    then have ab: "a = NULL \<or> b = NULL" using ca cb by auto
    have R: "amerge ?le as bs = (if as = [] then bs else as)" using True by auto
    let ?g' = "set_next t (a OR b) g"
    have 1: "merge_final_loop g t a b = Some (?g', t)"
      using ab by (subst merge_final_loop.simps) auto
    have "chain (l_next g) (a OR b) (amerge ?le as bs)"
      using True ca cb by (auto simp: R)
    moreover have "t \<notin> set (amerge ?le as bs)" using tn by simp
    ultimately have 2: "chain (l_next ?g') (l_next ?g' t) (amerge ?le as bs)" by simp
    have 3: "lframe g ?g' (insert t (set as \<union> set bs)) (set [])"
      by (rule lframe_set_next) simp
    have "merge_final_loop g t a b = Some (?g', last (t # [])) \<and>
      amerge ?le as bs = [] @ amerge ?le as bs \<and>
      chain (l_next ?g') (l_next ?g' t) ([] @ amerge ?le as bs) \<and>
      blinks (l_prev ?g') t [] \<and> lframe g ?g' (insert t (set as \<union> set bs)) (set [])"
      using 1 2 3 by simp
    then show ?thesis by blast
  next
    case False
    then obtain x as' y bs' where as: "as = x # as'" and bs: "bs = y # bs'"
      by (cases as; cases bs) auto
    from ca cb as bs have ax: "a = x" "x \<noteq> NULL" "x \<notin> set as'" and ca': "chain (l_next g) (l_next g x) as'"
      and by': "b = y" "y \<noteq> NULL" "y \<notin> set bs'" and cb': "chain (l_next g) (l_next g y) bs'"
      by auto
    from dj as bs have dj': "x \<noteq> y" "x \<notin> set bs'" "y \<notin> set as'" "set as' \<inter> set bs' = {}" by auto
    from tn as bs have tn': "t \<noteq> x" "t \<noteq> y" "t \<notin> set as'" "t \<notin> set bs'" by auto
    show ?thesis
    proof (cases "?le x y")
      case True
      let ?g2 = "set_prev x t (set_next t x g)"
      let ?R' = "amerge ?le as' bs"
      have R: "amerge ?le as bs = x # ?R'" using True as bs by simp
      have step: "merge_final_loop g t a b = merge_final_loop ?g2 x (l_next g x) y"
        unfolding ax(1) by'(1) using True ax(2) by'(2) tn'(1)
        by (subst merge_final_loop.simps) (simp add: Let_def key_le_def)
      have p1: "chain (l_next ?g2) (l_next g x) as'" using ca' tn'(3) by simp
      have tb: "t \<notin> set bs" using tn' bs by simp
      have p2: "chain (l_next ?g2) y bs" using cb tb by'(1) by simp
      have p3: "set as' \<inter> set bs = {}" using dj' bs by auto
      have p4: "x \<notin> set as' \<union> set bs" using ax dj' bs by auto
      have len: "length as' + length bs < length as + length bs" using as by simp
      have kl: "key_le ?g2 = ?le" by simp
      from less.hyps [OF len p1 p2 p3 p4] obtain g' P S where
        ih: "merge_final_loop ?g2 x (l_next g x) y = Some (g', last (x # P))"
          "?R' = P @ S" "chain (l_next g') (l_next g' x) (P @ S)"
          "blinks (l_prev g') x P" "lframe ?g2 g' (insert x (set as' \<union> set bs)) (set P)"
        unfolding kl by blast
      have f1: "lframe g ?g2 {t} {x}" by (auto simp: lframe_def)
      have fr: "lframe g g' (insert t (set as \<union> set bs)) (set (x # P))"
        by (rule lframe_trans [OF f1 ih(5)]) (auto simp: as)
      have "set P \<subseteq> set ?R'" using ih(2) by simp
      then have xP: "x \<notin> set P" using p4 by auto
      have xR: "x \<notin> set (P @ S)" using p4 ih(2) [symmetric] by simp
      have "l_next g' t = l_next ?g2 t"
        by (rule lframe_next [OF ih(5)]) (use tn' tb in simp)
      then have nt: "l_next g' t = x" by simp
      have "l_prev g' x = l_prev ?g2 x" by (rule lframe_prev [OF ih(5) xP])
      then have px: "l_prev g' x = t" by simp
      have "merge_final_loop g t a b = Some (g', last (t # (x # P))) \<and>
        amerge ?le as bs = (x # P) @ S \<and> chain (l_next g') (l_next g' t) ((x # P) @ S) \<and>
        blinks (l_prev g') t (x # P) \<and> lframe g g' (insert t (set as \<union> set bs)) (set (x # P))"
        using step ih(1,2,3,4) fr nt px xR ax(2) by (simp add: R)
      then show ?thesis by blast
    next
      case nle: False
      let ?g2 = "set_prev y t (set_next t y g)"
      let ?R' = "amerge ?le as bs'"
      have R: "amerge ?le as bs = y # ?R'" using nle as bs by simp
      have step: "merge_final_loop g t a b = merge_final_loop ?g2 y x (l_next g y)"
        unfolding ax(1) by'(1) using nle ax(2) by'(2) tn'(2)
        by (subst merge_final_loop.simps) (simp add: Let_def key_le_def)
      have ta: "t \<notin> set as" using tn' as by simp
      have p1: "chain (l_next ?g2) x as" using ca ta ax(1) by simp
      have p2: "chain (l_next ?g2) (l_next g y) bs'" using cb' tn'(4) by simp
      have p3: "set as \<inter> set bs' = {}" using dj' as by auto
      have p4: "y \<notin> set as \<union> set bs'" using by' dj' as by auto
      have len: "length as + length bs' < length as + length bs" using bs by simp
      have kl: "key_le ?g2 = ?le" by simp
      from less.hyps [OF len p1 p2 p3 p4] obtain g' P S where
        ih: "merge_final_loop ?g2 y x (l_next g y) = Some (g', last (y # P))"
          "?R' = P @ S" "chain (l_next g') (l_next g' y) (P @ S)"
          "blinks (l_prev g') y P" "lframe ?g2 g' (insert y (set as \<union> set bs')) (set P)"
        unfolding kl by blast
      have f1: "lframe g ?g2 {t} {y}" by (auto simp: lframe_def)
      have fr: "lframe g g' (insert t (set as \<union> set bs)) (set (y # P))"
        by (rule lframe_trans [OF f1 ih(5)]) (auto simp: bs)
      have "set P \<subseteq> set ?R'" using ih(2) by simp
      then have yP: "y \<notin> set P" using p4 by auto
      have yR: "y \<notin> set (P @ S)" using p4 ih(2) [symmetric] by simp
      have "l_next g' t = l_next ?g2 t"
        by (rule lframe_next [OF ih(5)]) (use tn' ta in simp)
      then have nt: "l_next g' t = y" by simp
      have "l_prev g' y = l_prev ?g2 y" by (rule lframe_prev [OF ih(5) yP])
      then have py: "l_prev g' y = t" by simp
      have "merge_final_loop g t a b = Some (g', last (t # (y # P))) \<and>
        amerge ?le as bs = (y # P) @ S \<and> chain (l_next g') (l_next g' t) ((y # P) @ S) \<and>
        blinks (l_prev g') t (y # P) \<and> lframe g g' (insert t (set as \<union> set bs)) (set (y # P))"
        using step ih(1,2,3,4) fr nt py yR by'(2) by (simp add: R)
      then show ?thesis by blast
    qed
  qed
qed

lemma merge_final_dlist:
  assumes ca: "chain (l_next g) a as" and cb: "chain (l_next g) b bs" and dj: "set as \<inter> set bs = {}"
    and tn: "t \<notin> set as \<union> set bs" and t: "t \<noteq> NULL"
  shows "\<exists>g'. merge_final g t a b = Some g' \<and> dlist g' t (amerge (key_le g) as bs) \<and>
    lframe g g' (insert t (set as \<union> set bs)) (insert t (set as \<union> set bs))"
proof -
  let ?R = "amerge (key_le g) as bs"
  from merge_final_loop_chain [OF ca cb dj tn] obtain g1 P S where
    m: "merge_final_loop g t a b = Some (g1, last (t # P))" "?R = P @ S"
      "chain (l_next g1) (l_next g1 t) (P @ S)" "blinks (l_prev g1) t P"
      "lframe g g1 (insert t (set as \<union> set bs)) (set P)"
    by blast
  let ?t1 = "last (t # P)"
  have c1: "chain (l_next g1) (l_next g1 ?t1) S" by (rule chain_last [OF m(3)])
  from link_prev_loop_back [OF c1] obtain g2 where
    l: "link_prev_loop g1 ?t1 = Some (g2, last (?t1 # S))" "blinks (l_prev g2) ?t1 S"
      "lframe g1 g2 {} (set S)"
    by blast
  have la: "last (?t1 # S) = last (t # ?R)" by (simp add: m(2))
  have di: "distinct (P @ S)" using chain_props [OF m(3)] by simp
  have "blinks (l_prev g2) t P = blinks (l_prev g1) t P"
    by (rule back_cong) (use di l(3) in \<open>auto simp: lframe_def\<close>)
  then have b: "blinks (l_prev g2) t ?R" using m(4) l(2) by (simp add: m(2) back_append)
  have nx: "l_next g2 = l_next g1" using l(3) by (auto simp: lframe_def)
  have c2: "chain (l_next g2) (l_next g2 t) ?R" using m(3) by (simp add: nx m(2))
  have tR: "t \<notin> set ?R" using tn by simp
  have d: "dlist (close_list g2 t (last (t # ?R))) t ?R"
    by (rule close_list_dlist [OF c2 b tR t])
  have sR: "set ?R = set as \<union> set bs" by simp
  have sP: "set P \<subseteq> set as \<union> set bs" "set S \<subseteq> set as \<union> set bs"
    using sR unfolding m(2) by auto
  have "last (t # ?R) \<in> set (t # ?R)" by (rule last_in_set) simp
  then have ln: "last (t # ?R) \<in> insert t (set as \<union> set bs)" by simp
  have f12: "lframe g g2 (insert t (set as \<union> set bs)) (set as \<union> set bs)"
    by (rule lframe_trans [OF m(5) l(3)]) (use sP in auto)
  have fr: "lframe g (close_list g2 t (last (t # ?R))) (insert t (set as \<union> set bs))
      (insert t (set as \<union> set bs))"
    by (rule lframe_trans [OF f12 lframe_close_list]) (use ln in auto)
  have "merge_final g t a b = Some (close_list g2 t (last (t # ?R)))"
    by (simp only: merge_final_def m(1) l(1) la [symmetric] option.case prod.case)
  then show ?thesis using d fr by blast
qed

subsection \<open>\<^verbatim>\<open>q_sort\<close> computes the sort on lists\<close>

lemma total_preorder_key_le: "total_preorder (key_le h)"
  unfolding total_preorder_def using key_le_trans key_le_total by blast

lemma path_hd: "path f p xs q \<Longrightarrow> f p = hd (xs @ [q])"
  by (cases xs) auto

lemma dlist_ends:
  assumes "dlist h head xs"
  shows "l_next h head = hd (xs @ [head])" "l_prev h head = last (head # xs)"
proof -
  from assms have p: "path (l_next h) head xs head" "path (l_prev h) head (rev xs) head"
    by (simp_all add: dlist_def)
  show "l_next h head = hd (xs @ [head])" by (rule path_hd [OF p(1)])
  have "l_prev h head = hd (rev xs @ [head])" by (rule path_hd [OF p(2)])
  then show "l_prev h head = last (head # xs)" by (cases xs rule: rev_cases) auto
qed

lemma dlist_short:
  assumes d: "dlist h head xs"
  shows "l_next h head = l_prev h head \<longleftrightarrow> length xs \<le> 1"
proof (cases xs)
  case Nil
  then show ?thesis using dlist_ends [OF d] by simp
next
  case (Cons x ys)
  show ?thesis
  proof (cases ys)
    case Nil
    then show ?thesis using dlist_ends [OF d] Cons by simp
  next
    case (Cons y zs)
    have "last (y # zs) \<in> set (y # zs)" by (rule last_in_set) simp
    moreover have "x \<notin> set (y # zs)" using d \<open>xs = x # ys\<close> Cons by (simp add: dlist_def)
    ultimately have "x \<noteq> last (y # zs)" by metis
    then show ?thesis using dlist_ends [OF d] \<open>xs = x # ys\<close> Cons by simp
  qed
qed

lemma seg_open:
  "seg f p xs q \<Longrightarrow> distinct xs \<Longrightarrow> xs \<noteq> [] \<Longrightarrow> seg (f(last xs := q')) p xs q'"
proof (induction xs arbitrary: p)
  case Nil
  then show ?case by simp
next
  case (Cons x xs)
  show ?case
  proof (cases "xs = []")
    case True
    then show ?thesis using Cons.prems by simp
  next
    case False
    then have "last xs \<in> set xs" by simp
    then have "x \<noteq> last xs" using Cons.prems(2) by auto
    then show ?thesis using Cons False by simp
  qed
qed

lemma concat_replicate_Nil [simp]: "concat (replicate n []) = []"
  by (induction n) simp_all

lemma mset_short: "mset ys = mset xs \<Longrightarrow> length xs \<le> 1 \<Longrightarrow> ys = xs"
proof (cases xs)
  case Nil
  assume "mset ys = mset xs"
  then show ?thesis using Nil by simp
next
  case (Cons x zs)
  assume a: "mset ys = mset xs" "length xs \<le> 1"
  then have xs: "xs = [x]" using Cons by simp
  from a(1) have "length ys = 1" using xs by (metis length_Cons list.size(3) One_nat_def size_mset)
  then obtain y where ys: "ys = [y]" by (cases ys) auto
  then show ?thesis using a(1) xs by simp
qed

text \<open>
  The first loop of \<^verbatim>\<open>q_sort\<close>, started on the opened list, leaves the buckets
  \<open>apending\<close> of the list.
\<close>

lemma sort_loop_dlist:
  assumes mrg: "merge_ok mrg" and d: "dlist h head xs" and ne: "xs \<noteq> []"
  shows "\<exists>g pending. sort_loop mrg (set_next (l_prev h head) NULL h) (replicate SORT_BUFSIZE NULL)
        (l_next h head) = Some (g, pending) \<and>
      runs_ok g pending (apending (key_le h) xs) \<and>
      mset (concat (apending (key_le h) xs)) = mset xs \<and> frame h g (set xs)"
proof -
  let ?h1 = "set_next (l_prev h head) NULL h"
  from d have p: "path (l_next h) head xs head" and dx: "distinct xs" "NULL \<notin> set xs"
    by (simp_all add: dlist_def)
  have lp: "l_prev h head = last xs" using dlist_ends(2) [OF d] ne by simp
  have "seg (l_next h) (l_next h head) xs head" using p by (simp add: path_seg)
  then have "seg ((l_next h)(last xs := NULL)) (l_next h head) xs NULL"
    using dx(1) ne by (rule seg_open)
  then have c0: "chain (l_next ?h1) (l_next h head) xs"
    using dx by (simp add: chain_def lp)
  have ok0: "runs_ok ?h1 (replicate SORT_BUFSIZE NULL) (replicate SORT_BUFSIZE [])"
    by (simp add: runs_ok_def)
  have d0: "distinct (concat (replicate SORT_BUFSIZE []) @ xs)" using dx by simp
  have kl: "key_le ?h1 = key_le h" by simp
  from sort_loop_refines [OF mrg ok0 c0 d0] obtain g pending where
    s: "sort_loop mrg ?h1 (replicate SORT_BUFSIZE NULL) (l_next h head) = Some (g, pending)"
      "runs_ok g pending (apending (key_le h) xs)"
      "mset (concat (apending (key_le h) xs)) = mset xs" "frame ?h1 g (set xs)"
    unfolding kl apending_def [symmetric] by auto
  have "last xs \<in> set xs" using ne by simp
  then have f0: "frame h ?h1 (set xs)" unfolding lp by (rule frame_set_next)
  have "frame h g (set xs)" by (rule frame_trans [OF f0 s(4)]) simp
  then show ?thesis using s(1,2,3) by blast
qed

lemma q_sort_v0_dlist:
  assumes d: "dlist h head xs"
  shows "\<exists>h'. q_sort_v0 h head = Some h' \<and> dlist h' head (asort_v0 (key_le h) xs) \<and>
    lframe h h' (set (head # xs)) (set (head # xs)) \<and> (length xs \<le> 1 \<longrightarrow> h' = h)"
proof (cases "length xs \<le> 1")
  case True
  let ?le = "key_le h"
  have "mset (asort_v0 ?le xs) = mset xs"
    using asort_v0_spec(2) [OF total_preorder_key_le, of h xs] by (simp add: stable_perm_def)
  then have "asort_v0 ?le xs = xs" using True by (rule mset_short)
  moreover have "q_sort_v0 h head = Some h"
    using dlist_short [OF d] True by (simp add: q_sort_v0_def)
  ultimately show ?thesis using d by simp
next
  case False
  let ?le = "key_le h" and ?rs = "apending (key_le h) xs"
  note tp = total_preorder_key_le [of h]
  from False have ne: "xs \<noteq> []" by auto
  from d have hd: "head \<noteq> NULL" "head \<notin> set xs" by (simp_all add: dlist_def)
  have cond: "\<not> (head = NULL \<or> l_next h head = l_prev h head)"
    using dlist_short [OF d] False hd by simp
  from sort_loop_dlist [OF merge_ok_merge_v0 d ne] obtain g2 pending2 where
    s: "sort_loop merge_v0 (set_next (l_prev h head) NULL h) (replicate SORT_BUFSIZE NULL)
          (l_next h head) = Some (g2, pending2)"
      "runs_ok g2 pending2 ?rs" "mset (concat ?rs) = mset xs" "frame h g2 (set xs)"
    by blast
  have le2: "?le = key_le g2" using frame_key_le [OF s(4)] by simp
  have len: "length ?rs = SORT_BUFSIZE" by (rule runs_okD(2) [OF s(2)])
  have dx: "distinct xs" using d by (simp add: dlist_def)
  have dc: "distinct (concat ?rs)" using s(3) dx mset_eq_imp_distinct_iff by blast
  have "\<exists>g3 result3. merge_pending merge_v0 32 g2 pending2 NULL 0 = Some (g3, result3) \<and>
      chain (l_next g3) result3 (amerge_pending ?le 32 ?rs [] 0) \<and>
      frame g2 g3 (set (concat (take 32 ?rs)) \<union> set [])"
  proof (rule merge_pending_refines [OF merge_ok_merge_v0 le2 len])
    show "chain (l_next g2) (pending2 ! j) (?rs ! j)" if "j < 32" for j
      by (rule runs_okD(3) [OF s(2)]) (use that in \<open>simp add: SORT_BUFSIZE_def\<close>)
    show "chain (l_next g2) NULL []" by simp
    show "distinct (concat (drop 0 ?rs) @ [])" using dc by simp
    show "32 \<le> SORT_BUFSIZE" by (simp add: SORT_BUFSIZE_def)
  qed
  then obtain g3 result3 where
    m: "merge_pending merge_v0 32 g2 pending2 NULL 0 = Some (g3, result3)"
      "chain (l_next g3) result3 (asort_v0 ?le xs)" "frame g2 g3 (set (concat (take 32 ?rs)))"
    unfolding asort_v0_def by auto
  let ?R = "asort_v0 ?le xs"
  have mR: "mset ?R = mset xs" using asort_v0_spec(2) [OF tp, of xs] by (simp add: stable_perm_def)
  have sR: "set ?R = set xs" by (rule mset_eq_setD [OF mR])
  have hR: "head \<notin> set ?R" using hd sR by simp
  have st: "set (concat (take 32 ?rs)) \<subseteq> set xs"
    using mset_eq_setD [OF s(3)] by (auto dest: in_set_takeD)
  let ?h3 = "set_next head result3 g3"
  have c3: "chain (l_next ?h3) (l_next ?h3 head) ?R" using m(2) hR by simp
  from link_prev_loop_back [OF c3] obtain g4 where
    l: "link_prev_loop ?h3 head = Some (g4, last (head # ?R))" "blinks (l_prev g4) head ?R"
      "lframe ?h3 g4 {} (set ?R)"
    by blast
  have nx: "l_next g4 = l_next ?h3" using l(3) by (auto simp: lframe_def)
  have c4: "chain (l_next g4) (l_next g4 head) ?R" using c3 by (simp only: nx)
  let ?h' = "close_list g4 head (last (head # ?R))"
  have dl: "dlist ?h' head ?R" by (rule close_list_dlist [OF c4 l(2) hR hd(1)])
  have q: "q_sort_v0 h head = Some ?h'"
    unfolding q_sort_v0_def using cond s(1) m(1) l(1)
    by (simp add: Let_def SORT_BUFSIZE_def del: last.simps)
  have f3: "frame h g3 (set xs)" by (rule frame_trans [OF s(4) m(3)]) (use st in auto)
  have f3': "lframe h ?h3 (set (head # xs)) {}"
    by (rule lframe_trans [OF frame_lframe [OF f3] lframe_set_next [of head "{head}"]]) auto
  have f4: "lframe h g4 (set (head # xs)) (set xs)"
    by (rule lframe_trans [OF f3' l(3)]) (use sR in auto)
  have "last (head # ?R) \<in> set (head # ?R)" by (rule last_in_set) simp
  then have ln: "last (head # ?R) \<in> set (head # xs)" using sR by simp
  have fr: "lframe h ?h' (set (head # xs)) (set (head # xs))"
    by (rule lframe_trans [OF f4 lframe_close_list]) (use ln in auto)
  show ?thesis using q dl fr False by blast
qed

lemma q_sort_dlist:
  assumes d: "dlist h head xs"
  shows "\<exists>h'. q_sort h head = Some h' \<and> dlist h' head (asort (key_le h) xs) \<and>
    lframe h h' (set (head # xs)) (set (head # xs)) \<and> (length xs \<le> 1 \<longrightarrow> h' = h)"
proof (cases "length xs \<le> 1")
  case True
  let ?le = "key_le h"
  have "mset (asort ?le xs) = mset xs" by (rule asort_spec(2) [OF total_preorder_key_le])
  then have "asort ?le xs = xs" using True by (rule mset_short)
  moreover have "q_sort h head = Some h"
    using dlist_short [OF d] True by (simp add: q_sort_def)
  ultimately show ?thesis using d by simp
next
  case False
  let ?le = "key_le h" and ?rs = "apending (key_le h) xs"
  note tp = total_preorder_key_le [of h]
  from False have ne: "xs \<noteq> []" by auto
  from d have hd: "head \<noteq> NULL" "head \<notin> set xs" by (simp_all add: dlist_def)
  have cond: "\<not> (head = NULL \<or> l_next h head = l_prev h head)"
    using dlist_short [OF d] False hd by simp
  from sort_loop_dlist [OF merge_ok_merge d ne] obtain g2 pending2 where
    s: "sort_loop merge (set_next (l_prev h head) NULL h) (replicate SORT_BUFSIZE NULL)
          (l_next h head) = Some (g2, pending2)"
      "runs_ok g2 pending2 ?rs" "mset (concat ?rs) = mset xs" "frame h g2 (set xs)"
    by blast
  have le2: "?le = key_le g2" using frame_key_le [OF s(4)] by simp
  have len: "length ?rs = SORT_BUFSIZE" by (rule runs_okD(2) [OF s(2)])
  have len32: "length ?rs = 32" using len by (simp add: SORT_BUFSIZE_def)
  have dx: "distinct xs" using d by (simp add: dlist_def)
  have dc: "distinct (concat ?rs)" using s(3) dx mset_eq_imp_distinct_iff by blast
  let ?A = "amerge_pending ?le 31 ?rs [] 0"
  have "\<exists>g3 result3. merge_pending merge 31 g2 pending2 NULL 0 = Some (g3, result3) \<and>
      chain (l_next g3) result3 ?A \<and> frame g2 g3 (set (concat (take 31 ?rs)) \<union> set [])"
  proof (rule merge_pending_refines [OF merge_ok_merge le2 len])
    show "chain (l_next g2) (pending2 ! j) (?rs ! j)" if "j < 31" for j
      by (rule runs_okD(3) [OF s(2)]) (use that in \<open>simp add: SORT_BUFSIZE_def\<close>)
    show "chain (l_next g2) NULL []" by simp
    show "distinct (concat (drop 0 ?rs) @ [])" using dc by simp
    show "31 \<le> SORT_BUFSIZE" by (simp add: SORT_BUFSIZE_def)
  qed
  then obtain g3 result3 where
    m: "merge_pending merge 31 g2 pending2 NULL 0 = Some (g3, result3)"
      "chain (l_next g3) result3 ?A" "frame g2 g3 (set (concat (take 31 ?rs)))"
    by auto
  have srt31: "\<forall>j<31. sorted_wrt ?le (?rs ! j)"
    using apending_inv(1) [OF tp, of xs] by (simp add: runs_inv_def SORT_BUFSIZE_def)
  have "sorted_wrt ?le ?A \<and> stable_perm ?le ?A (aged (drop 0 (take 31 ?rs)) @ [])"
    by (rule amerge_pending_inv [OF tp srt31]) (simp_all add: len32)
  then have mA: "mset ?A = mset (concat (take 31 ?rs))" by (simp add: stable_perm_def)
  have sA: "set ?A = set (concat (take 31 ?rs))" by (rule mset_eq_setD [OF mA])
  have sp: "?rs = take 31 ?rs @ [?rs ! 31]"
    using len32 by (metis lessI take_Suc_conv_app_nth take_all order_refl numeral_eq_Suc pred_numeral_simps(2) semiring_norm(26) semiring_norm(27))
  have cc: "concat ?rs = concat (take 31 ?rs) @ ?rs ! 31"
    by (subst sp) simp
  have dj: "set ?A \<inter> set (?rs ! 31) = {}" using dc unfolding cc sA by auto
  have sx: "set ?A \<union> set (?rs ! 31) = set xs"
    using mset_eq_setD [OF s(3)] unfolding cc sA by simp
  have "chain (l_next g2) (pending2 ! 31) (?rs ! 31)"
    by (rule runs_okD(3) [OF s(2)]) (simp add: SORT_BUFSIZE_def)
  then have cb: "chain (l_next g3) (pending2 ! 31) (?rs ! 31)"
    by (rule chain_frame [OF _ m(3)]) (use dj sA in auto)
  have tn: "head \<notin> set ?A \<union> set (?rs ! 31)" unfolding sx by (rule hd(2))
  from merge_final_dlist [OF m(2) cb dj tn hd(1)] obtain h' where
    f: "merge_final g3 head result3 (pending2 ! 31) = Some h'"
      "dlist h' head (amerge (key_le g3) ?A (?rs ! 31))"
      "lframe g3 h' (insert head (set ?A \<union> set (?rs ! 31))) (insert head (set ?A \<union> set (?rs ! 31)))"
    by blast
  have le3: "key_le g3 = ?le" using frame_key_le [OF m(3)] le2 by simp
  have as: "asort ?le xs = amerge ?le ?A (?rs ! 31)"
    by (simp add: asort_def SORT_BUFSIZE_def Let_def)
  have q: "q_sort h head = Some h'"
    unfolding q_sort_def using cond s(1) m(1) f(1)
    by (simp add: Let_def SORT_BUFSIZE_def)
  have f3: "frame h g3 (set xs)" by (rule frame_trans [OF s(4) m(3)]) (use sx sA in auto)
  have fr: "lframe h h' (set (head # xs)) (set (head # xs))"
    by (rule lframe_trans [OF frame_lframe [OF f3] f(3)]) (use sx in auto)
  show ?thesis using q f(2) fr False unfolding le3 as by blast
qed

subsection \<open>The specification of \<^verbatim>\<open>q_sort\<close>\<close>

lemma sorted_wrt_unique:
  "(\<And>x y. x \<in> set xs \<Longrightarrow> y \<in> set xs \<Longrightarrow> le x y \<Longrightarrow> le y x \<Longrightarrow> x = y) \<Longrightarrow>
   sorted_wrt le xs \<Longrightarrow> sorted_wrt le ys \<Longrightarrow> mset ys = mset xs \<Longrightarrow> ys = xs"
proof (induction xs arbitrary: ys)
  case Nil
  then show ?case by simp
next
  case (Cons x xs)
  from Cons.prems(4) obtain y ys' where ys: "ys = y # ys'" by (cases ys) auto
  have sx: "set ys = set (x # xs)" using Cons.prems(4) by (rule mset_eq_setD)
  have xy: "x = y"
  proof (rule ccontr)
    assume ne: "x \<noteq> y"
    then have "x \<in> set ys'" "y \<in> set xs" using sx ys by auto
    then have l: "le y x" "le x y" using Cons.prems(2,3) ys by auto
    have "x \<in> set (x # xs)" "y \<in> set (x # xs)" using \<open>y \<in> set xs\<close> by simp_all
    then have "x = y" using l(2,1) by (rule Cons.prems(1))
    then show False using ne by simp
  qed
  then have "mset ys' = mset xs" using Cons.prems(4) ys by simp
  then have "ys' = xs"
    using Cons.prems(1,2,3) ys by (intro Cons.IH) auto
  then show ?case using xy ys by simp
qed

lemma key_le_fun: "key_le h = (\<lambda>x y. strcmp (key h x) (key h y) \<le> 0)"
  by (simp add: fun_eq_iff key_le_def)

text \<open>
  Sentinel 1, elements 2, 3, 4 with payloads \<^verbatim>\<open>"banana"\<close>, \<^verbatim>\<open>"apple"\<close>, \<^verbatim>\<open>"cherry"\<close> stored
  at 12, 13, 14.
\<close>

definition heap3 :: heap where
  "heap3 = \<lparr>l_next = (\<lambda>_. NULL)(1 := 2, 2 := 3, 3 := 4, 4 := 1),
     l_prev = (\<lambda>_. NULL)(1 := 4, 2 := 1, 3 := 2, 4 := 3),
     e_value = (\<lambda>_. NULL)(2 := 12, 3 := 13, 4 := 14),
     c_str = (\<lambda>_. [])(12 := ''banana'', 13 := ''apple'', 14 := ''cherry''),
     live = {1, 2, 3, 4, 12, 13, 14}\<rparr>"

lemma dlist_heap3: "dlist heap3 1 [2, 3, 4]"
  by (simp add: dlist_def heap3_def)

lemma keys_heap3: "key heap3 2 = ''banana''" "key heap3 3 = ''apple''" "key heap3 4 = ''cherry''"
  by (simp_all add: key_def heap3_def)

lemma sorted_heap3:
  assumes s: "sorted_wrt (\<lambda>s t. strcmp s t \<le> 0) (map (key heap3) ys)" and m: "mset ys = mset [2, 3, 4]"
  shows "ys = [3, 2, 4]"
proof (rule sorted_wrt_unique [where le = "key_le heap3"])
  show "sorted_wrt (key_le heap3) [3, 2, 4]" by (simp add: key_le_def keys_heap3)
  show "sorted_wrt (key_le heap3) ys" using s by (simp add: sorted_wrt_map key_le_fun)
  show "mset ys = mset [3, 2, 4]" using m by simp
  show "x = y" if "x \<in> set [3, 2, 4]" "y \<in> set [3, 2, 4]" "key_le heap3 x y" "key_le heap3 y x" for x y
    using that by (auto simp: key_le_def keys_heap3)
qed

text \<open>
  Claim C1.  On a well-formed list \<^verbatim>\<open>q_sort\<close> (either copy) returns; the list then consists
  of the same nodes, each once, well-formed again and with the payloads in non-decreasing
  order of \<^verbatim>\<open>strcmp\<close>; no block is allocated or released and no element changes its
  \<^verbatim>\<open>value\<close> pointer or its string.  On a list of at most one element, and on a \<^verbatim>\<open>NULL\<close>
  handle, the heap is left as it is.
\<close>

theorem q_sort_spec:
  assumes "dlist h head xs"
  shows "(\<exists>h' ys. q_sort h head = Some h' \<and> dlist h' head ys \<and> mset ys = mset xs \<and>
        sorted_wrt (\<lambda>s t. strcmp s t \<le> 0) (map (key h') ys) \<and>
        live h' = live h \<and> e_value h' = e_value h \<and> c_str h' = c_str h \<and>
        (length xs \<le> 1 \<longrightarrow> h' = h)) \<and>
     (\<exists>h' ys. q_sort_v0 h head = Some h' \<and> dlist h' head ys \<and> mset ys = mset xs \<and>
        sorted_wrt (\<lambda>s t. strcmp s t \<le> 0) (map (key h') ys) \<and>
        live h' = live h \<and> e_value h' = e_value h \<and> c_str h' = c_str h \<and>
        (length xs \<le> 1 \<longrightarrow> h' = h)) \<and>
     q_sort g NULL = Some g \<and> q_sort_v0 g NULL = Some g"
proof (intro conjI)
  note tp = total_preorder_key_le [of h]
  show "q_sort g NULL = Some g" by (simp add: q_sort_def)
  show "q_sort_v0 g NULL = Some g" by (simp add: q_sort_v0_def)
  from q_sort_dlist [OF assms] obtain h' where
    q: "q_sort h head = Some h'" "dlist h' head (asort (key_le h) xs)"
      "lframe h h' (set (head # xs)) (set (head # xs))" "length xs \<le> 1 \<longrightarrow> h' = h"
    by blast
  have f: "live h' = live h" "e_value h' = e_value h" "c_str h' = c_str h"
    using q(3) by (simp_all add: lframe_def)
  then have k: "key h' = key h" by (simp add: key_def fun_eq_iff)
  have "sorted_wrt (key_le h) (asort (key_le h) xs)" by (rule asort_spec(1) [OF tp])
  then have s: "sorted_wrt (\<lambda>s t. strcmp s t \<le> 0) (map (key h') (asort (key_le h) xs))"
    by (simp add: sorted_wrt_map key_le_fun k)
  have m: "mset (asort (key_le h) xs) = mset xs" by (rule asort_spec(2) [OF tp])
  show "\<exists>h' ys. q_sort h head = Some h' \<and> dlist h' head ys \<and> mset ys = mset xs \<and>
        sorted_wrt (\<lambda>s t. strcmp s t \<le> 0) (map (key h') ys) \<and>
        live h' = live h \<and> e_value h' = e_value h \<and> c_str h' = c_str h \<and>
        (length xs \<le> 1 \<longrightarrow> h' = h)"
    using q(1,2,4) m s f by blast
next
  note tp = total_preorder_key_le [of h]
  from q_sort_v0_dlist [OF assms] obtain h' where
    q: "q_sort_v0 h head = Some h'" "dlist h' head (asort_v0 (key_le h) xs)"
      "lframe h h' (set (head # xs)) (set (head # xs))" "length xs \<le> 1 \<longrightarrow> h' = h"
    by blast
  have f: "live h' = live h" "e_value h' = e_value h" "c_str h' = c_str h"
    using q(3) by (simp_all add: lframe_def)
  then have k: "key h' = key h" by (simp add: key_def fun_eq_iff)
  have "sorted_wrt (key_le h) (asort_v0 (key_le h) xs)" by (rule asort_v0_spec(1) [OF tp])
  then have s: "sorted_wrt (\<lambda>s t. strcmp s t \<le> 0) (map (key h') (asort_v0 (key_le h) xs))"
    by (simp add: sorted_wrt_map key_le_fun k)
  have m: "mset (asort_v0 (key_le h) xs) = mset xs"
    using asort_v0_spec(2) [OF tp, of xs] by (simp add: stable_perm_def)
  show "\<exists>h' ys. q_sort_v0 h head = Some h' \<and> dlist h' head ys \<and> mset ys = mset xs \<and>
        sorted_wrt (\<lambda>s t. strcmp s t \<le> 0) (map (key h') ys) \<and>
        live h' = live h \<and> e_value h' = e_value h \<and> c_str h' = c_str h \<and>
        (length xs \<le> 1 \<longrightarrow> h' = h)"
    using q(1,2,4) m s f by blast
qed

text \<open>
  The list \<^verbatim>\<open>["banana", "apple", "cherry"]\<close> is sorted into
  \<^verbatim>\<open>["apple", "banana", "cherry"]\<close>.
\<close>

theorem q_sort_spec_witness:
  "(\<exists>h'. q_sort heap3 1 = Some h' \<and> dlist h' 1 [3, 2, 4] \<and>
      map (key h') [3, 2, 4] = [''apple'', ''banana'', ''cherry'']) \<and>
   (\<exists>h'. q_sort_v0 heap3 1 = Some h' \<and> dlist h' 1 [3, 2, 4] \<and>
      map (key h') [3, 2, 4] = [''apple'', ''banana'', ''cherry''])"
proof -
  have kk: "map (key h') [3, 2, 4] = [''apple'', ''banana'', ''cherry'']"
    if "e_value h' = e_value heap3" "c_str h' = c_str heap3" for h'
    using that keys_heap3 by (simp add: key_def)
  have ks: "sorted_wrt (\<lambda>s t. strcmp s t \<le> 0) (map (key heap3) ys)"
    if "sorted_wrt (\<lambda>s t. strcmp s t \<le> 0) (map (key h') ys)"
      "e_value h' = e_value heap3" "c_str h' = c_str heap3" for h' ys
  proof -
    have "key h' = key heap3" using that(2,3) by (simp add: key_def fun_eq_iff)
    then show ?thesis using that(1) by simp
  qed
  note spec = q_sort_spec [OF dlist_heap3, of heap3]
  from spec obtain h1 ys1 where
    a: "q_sort heap3 1 = Some h1" "dlist h1 1 ys1" "mset ys1 = mset [2, 3, 4]"
      "sorted_wrt (\<lambda>s t. strcmp s t \<le> 0) (map (key h1) ys1)"
      "e_value h1 = e_value heap3" "c_str h1 = c_str heap3"
    by blast
  from spec obtain h2 ys2 where
    b: "q_sort_v0 heap3 1 = Some h2" "dlist h2 1 ys2" "mset ys2 = mset [2, 3, 4]"
      "sorted_wrt (\<lambda>s t. strcmp s t \<le> 0) (map (key h2) ys2)"
      "e_value h2 = e_value heap3" "c_str h2 = c_str heap3"
    by blast
  have "ys1 = [3, 2, 4]" by (rule sorted_heap3 [OF ks [OF a(4,5,6)] a(3)])
  moreover have "ys2 = [3, 2, 4]" by (rule sorted_heap3 [OF ks [OF b(4,5,6)] b(3)])
  ultimately show ?thesis
    using a(1,2) b(1,2) kk [OF a(5,6)] kk [OF b(5,6)] by simp
qed

section \<open>The links after every operation\<close>

text \<open>
  \<open>linked h head xs\<close>: the sentinel \<open>head\<close> and the nodes \<open>xs\<close> form a well-formed list,
  and hence every node \<open>x\<close> of it, the sentinel included, has \<^verbatim>\<open>x->next->prev == x\<close> and
  \<^verbatim>\<open>x->prev->next == x\<close>, and the sentinel of an empty list points to itself in both
  directions.
\<close>

definition linked :: "heap \<Rightarrow> ptr \<Rightarrow> ptr list \<Rightarrow> bool" where
  "linked h head xs =
     (dlist h head xs \<and>
      (\<forall>x\<in>set (head # xs). l_prev h (l_next h x) = x \<and> l_next h (l_prev h x) = x) \<and>
      (xs = [] \<longrightarrow> l_next h head = head \<and> l_prev h head = head))"

lemma dlist_linked:
  assumes d: "dlist h head xs"
  shows "linked h head xs"
proof -
  have "l_prev h (l_next h x) = x \<and> l_next h (l_prev h x) = x" if "x \<in> set (head # xs)" for x
  proof
    from that obtain i where i: "i < length (head # xs)" "x = (head # xs) ! i"
      by (metis in_set_conv_nth)
    then have il: "i \<le> length xs" by simp
    show "l_prev h (l_next h x) = x"
      unfolding i(2) dlist_next_nth [OF d il] by (rule dlist_prev_nth [OF d il])
    from that have "x \<in> set (xs @ [head])" by auto
    then obtain j where j: "j < length (xs @ [head])" "x = (xs @ [head]) ! j"
      by (metis in_set_conv_nth)
    then have jl: "j \<le> length xs" by simp
    show "l_next h (l_prev h x) = x"
      unfolding j(2) dlist_prev_nth [OF d jl] by (rule dlist_next_nth [OF d jl])
  qed
  moreover have "l_next h head = head \<and> l_prev h head = head" if "xs = []"
    using d that by (simp add: dlist_def)
  ultimately show ?thesis using d by (simp add: linked_def)
qed

lemma q_insert_dlist:
  assumes d: "dlist h head xs" and e: "e \<notin> set (head # xs)"
  shows "dlist (fst (q_insert_head h head s e v)) head
           (if snd (q_insert_head h head s e v) then e # xs else xs)"
    and "dlist (fst (q_insert_tail h head s e v)) head
           (if snd (q_insert_tail h head s e v) then xs @ [e] else xs)"
proof -
  have hd: "head \<noteq> NULL" using d by (simp add: dlist_def)
  have fail: "dlist (free (malloc h e) e) head xs"
    using d by (simp add: dlist_def free_def malloc_def)
  have ok: "dlist (set_value e v (strdup (malloc h e) s v)) head xs"
    using d by (simp add: dlist_def set_value_def strdup_def malloc_def)
  show "dlist (fst (q_insert_head h head s e v)) head
           (if snd (q_insert_head h head s e v) then e # xs else xs)"
    using hd d fail dlist_list_add [OF ok _ e]
    by (simp add: q_insert_head_def Let_def)
  show "dlist (fst (q_insert_tail h head s e v)) head
           (if snd (q_insert_tail h head s e v) then xs @ [e] else xs)"
    using hd d fail dlist_list_add_tail [OF ok _ e]
    by (simp add: q_insert_tail_def Let_def)
qed

lemma q_remove_dlist:
  assumes d: "dlist h head xs" and r: "room sp n"
  shows "\<exists>h' x sp'. q_remove_head h head sp n = Inr (h', x, sp') \<and> dlist h' head (tl xs)"
    and "\<exists>h' x sp'. q_remove_tail h head sp n = Inr (h', x, sp') \<and> dlist h' head (butlast xs)"
proof -
  show "\<exists>h' x sp'. q_remove_head h head sp n = Inr (h', x, sp') \<and> dlist h' head (tl xs)"
  proof (cases xs)
    case Nil
    then show ?thesis using d dlist_empty by (simp add: q_remove_head_def)
  next
    case (Cons x ys)
    from d Cons have dx: "dlist h head (x # ys)" by simp
    from dlist_list_del [of h head "[]" x ys] dx have "dlist (list_del h x) head ys" by simp
    moreover obtain sp' where "copy_out (key h x) sp n = Inr sp'"
      using copy_out_copied [OF r] by blast
    ultimately show ?thesis
      using q_remove_head_nonempty [OF dx, of sp n] Cons by simp
  qed
  show "\<exists>h' x sp'. q_remove_tail h head sp n = Inr (h', x, sp') \<and> dlist h' head (butlast xs)"
  proof (cases xs rule: rev_cases)
    case Nil
    then show ?thesis using d dlist_empty by (simp add: q_remove_tail_def)
  next
    case (snoc ys x)
    from d snoc have dx: "dlist h head (ys @ [x])" by simp
    from dlist_list_del [of h head ys x "[]"] dx have "dlist (list_del h x) head ys" by simp
    moreover obtain sp' where "copy_out (key h x) sp n = Inr sp'"
      using copy_out_copied [OF r] by blast
    ultimately show ?thesis
      using q_remove_tail_nonempty [OF dx, of sp n] snoc by simp
  qed
qed

lemma q_delete_mid_dlist:
  assumes d: "dlist h head xs"
  shows "\<exists>h'. q_delete_mid h head = Some (h', xs \<noteq> []) \<and>
    q_delete_mid_v0 h head = Some (h', xs \<noteq> []) \<and>
    dlist h' head (take (length xs div 2) xs @ drop (Suc (length xs div 2)) xs)"
proof (cases "xs = []")
  case True
  then have "list_empty h head" using d dlist_empty by simp
  then have "q_delete_mid h head = Some (h, False)" "q_delete_mid_v0 h head = Some (h, False)"
    by (simp_all add: q_delete_mid_def q_delete_mid_v0_def)
  then show ?thesis using d True by simp
next
  case ne: False
  define k where "k = length xs div 2"
  define x where "x = xs ! k"
  from ne have "0 < length xs" by simp
  then have kl: "k < length xs" unfolding k_def by arith
  have split: "xs = take k xs @ x # drop (Suc k) xs"
    unfolding x_def by (rule id_take_nth_drop [OF kl])
  obtain y ys where c: "xs = y # ys" using ne by (cases xs) auto
  have he: "head \<noteq> NULL" "\<not> list_empty h head" "l_next h head = (xs @ [head]) ! 0"
    using d dlist_first [of h head y ys] c by simp_all
  have w1: "mid_walk h head head = Some x"
    using mid_walk_dlist [OF d ne, of 0] by (simp add: k_def x_def)
  have w2: "mid_walk_v0 h (l_next h head) head = Some x"
    using mid_walk_v0_dlist [OF d ne, of 0] unfolding he(3) by (simp add: k_def x_def)
  have "dlist h head (take k xs @ x # drop (Suc k) xs)" using d split by simp
  then have dl: "dlist (list_del h x) head (take k xs @ drop (Suc k) xs)"
    by (rule dlist_list_del)
  show ?thesis
    using he w1 w2 dl ne by (simp add: q_delete_mid_def q_delete_mid_v0_def k_def)
qed

lemma q_swap_dlist:
  assumes d: "dlist h head xs"
  shows "\<exists>h'. q_swap h head = Some h' \<and> q_swap_v0 h head = Some h' \<and> dlist h' head (swap_pairs xs)"
proof (cases "xs = []")
  case True
  then have "list_empty h head" using d dlist_empty by simp
  then have "q_swap h head = Some h" "q_swap_v0 h head = Some h"
    by (simp_all add: q_swap_def q_swap_v0_def)
  then show ?thesis using d True by simp
next
  case False
  have hd: "head \<noteq> NULL" "head \<notin> set xs" "distinct xs" "NULL \<notin> set xs"
    and p: "path (l_next h) head xs head" "path (l_prev h) head (rev xs) head"
    using d by (auto simp: dlist_def)
  from False obtain y ys where "xs = y # ys" by (cases xs) auto
  then have ne: "\<not> list_empty h head" using d dlist_first(5) by blast
  from swap_loop_seg [OF p hd(3) hd(2) hd(2)] obtain g' where
    g': "swap_loop h head (l_next h head) = Some g'"
      "swap_loop_v0 h head (l_next h head) 0 = Some g'"
      "path (l_next g') head (swap_pairs xs) head"
      "path (l_prev g') head (rev (swap_pairs xs)) head"
    by blast
  have 1: "q_swap h head = Some g'" "q_swap_v0 h head = Some g'"
    using ne hd(1) g'(1,2) by (simp_all add: q_swap_def q_swap_v0_def)
  have 2: "dlist g' head (swap_pairs xs)"
    using hd g'(3,4) by (simp add: dlist_def)
  show ?thesis using 1 2 by simp
qed

text \<open>
  Claim C3.  Every operation leaves the list linked.  Started on a well-formed list (for
  the insertions: with an allocator that does not hand out a node of the list; for the
  removals: with an out-buffer that is \<^verbatim>\<open>NULL\<close> or has a byte at index \<^verbatim>\<open>bufsize - 1\<close>),
  each of \<^verbatim>\<open>q_insert_head\<close>, \<^verbatim>\<open>q_insert_tail\<close>, \<^verbatim>\<open>q_remove_head\<close>, \<^verbatim>\<open>q_remove_tail\<close>,
  \<^verbatim>\<open>q_delete_mid\<close>, \<^verbatim>\<open>q_delete_dup\<close>, \<^verbatim>\<open>q_swap\<close>, \<^verbatim>\<open>q_reverse\<close> and \<^verbatim>\<open>q_sort\<close> (both copies where
  there are two) returns, and in the heap it returns the sentinel and the remaining
  nodes are \<open>linked\<close>: \<^verbatim>\<open>x->next->prev == x\<close> and \<^verbatim>\<open>x->prev->next == x\<close> for the sentinel and
  every node, and an empty list has its sentinel pointing to itself.  For
  \<^verbatim>\<open>q_delete_dup\<close> this does not depend on the list being sorted.  \<^verbatim>\<open>q_sort\<close>, which cuts
  the list open, has set every \<^verbatim>\<open>prev\<close> link and closed the list again when it returns.
\<close>

theorem links_preserved:
  assumes d: "dlist h head xs" and e: "e \<notin> set (head # xs)" and r: "room sp n"
  shows "linked h head xs \<and>
    linked (fst (q_insert_head h head s e v)) head
      (if snd (q_insert_head h head s e v) then e # xs else xs) \<and>
    linked (fst (q_insert_tail h head s e v)) head
      (if snd (q_insert_tail h head s e v) then xs @ [e] else xs) \<and>
    (\<exists>h' x sp'. q_remove_head h head sp n = Inr (h', x, sp') \<and> linked h' head (tl xs)) \<and>
    (\<exists>h' x sp'. q_remove_tail h head sp n = Inr (h', x, sp') \<and> linked h' head (butlast xs)) \<and>
    (\<exists>h'. q_delete_mid h head = Some (h', xs \<noteq> []) \<and>
       q_delete_mid_v0 h head = Some (h', xs \<noteq> []) \<and>
       linked h' head (take (length xs div 2) xs @ drop (Suc (length xs div 2)) xs)) \<and>
    (\<exists>h'. q_delete_dup h head = Some (h', True) \<and> linked h' head (dedup (same_key h) False xs)) \<and>
    (\<exists>h'. q_delete_dup_v0 h head = Some (h', True) \<and>
       linked h' head (dedup (same_key h) False xs)) \<and>
    (\<exists>h'. q_swap h head = Some h' \<and> q_swap_v0 h head = Some h' \<and>
       linked h' head (swap_pairs xs)) \<and>
    (\<exists>h'. q_reverse h head = Some h' \<and> q_reverse_v0 h head = Some h' \<and> linked h' head (rev xs)) \<and>
    (\<exists>h' ys. q_sort h head = Some h' \<and> linked h' head ys \<and> mset ys = mset xs) \<and>
    (\<exists>h' ys. q_sort_v0 h head = Some h' \<and> linked h' head ys \<and> mset ys = mset xs)"
proof (intro conjI)
  show "linked h head xs" by (rule dlist_linked [OF d])
  show "linked (fst (q_insert_head h head s e v)) head
      (if snd (q_insert_head h head s e v) then e # xs else xs)"
    by (rule dlist_linked [OF q_insert_dlist(1) [OF d e]])
  show "linked (fst (q_insert_tail h head s e v)) head
      (if snd (q_insert_tail h head s e v) then xs @ [e] else xs)"
    by (rule dlist_linked [OF q_insert_dlist(2) [OF d e]])
  show "\<exists>h' x sp'. q_remove_head h head sp n = Inr (h', x, sp') \<and> linked h' head (tl xs)"
    using q_remove_dlist(1) [OF d r] dlist_linked by blast
  show "\<exists>h' x sp'. q_remove_tail h head sp n = Inr (h', x, sp') \<and> linked h' head (butlast xs)"
    using q_remove_dlist(2) [OF d r] dlist_linked by blast
  show "\<exists>h'. q_delete_mid h head = Some (h', xs \<noteq> []) \<and>
       q_delete_mid_v0 h head = Some (h', xs \<noteq> []) \<and>
       linked h' head (take (length xs div 2) xs @ drop (Suc (length xs div 2)) xs)"
    using q_delete_mid_dlist [OF d] dlist_linked by blast
  let ?R = "dedup (same_key h) False xs"
  have sR: "set ?R \<subseteq> set xs" by (rule set_dedup)
  have dR: "distinct ?R" using d by (intro distinct_dedup) (simp add: dlist_def)
  from q_delete_dup_dlist [OF d] obtain h1 where
    h1: "q_delete_dup h head = Some (h1, True)" "relinked h h1 head head xs ?R" by blast
  from q_delete_dup_v0_dlist [OF d] obtain h2 where
    h2: "q_delete_dup_v0 h head = Some (h2, True)" "relinked h h2 head head xs ?R" by blast
  show "\<exists>h'. q_delete_dup h head = Some (h', True) \<and> linked h' head ?R"
    using h1(1) dlist_linked [OF relinked_dlist(1) [OF h1(2) d sR dR]] by blast
  show "\<exists>h'. q_delete_dup_v0 h head = Some (h', True) \<and> linked h' head ?R"
    using h2(1) dlist_linked [OF relinked_dlist(1) [OF h2(2) d sR dR]] by blast
  show "\<exists>h'. q_swap h head = Some h' \<and> q_swap_v0 h head = Some h' \<and>
       linked h' head (swap_pairs xs)"
    using q_swap_dlist [OF d] dlist_linked by blast
  show "\<exists>h'. q_reverse h head = Some h' \<and> q_reverse_v0 h head = Some h' \<and> linked h' head (rev xs)"
    using q_reverse_dlist [OF d] dlist_linked [OF dlist_swap_links [OF d]] by blast
  note tp = total_preorder_key_le [of h]
  have m: "mset (asort (key_le h) xs) = mset xs" by (rule asort_spec(2) [OF tp])
  have m0: "mset (asort_v0 (key_le h) xs) = mset xs"
    using asort_v0_spec(2) [OF tp, of xs] by (simp add: stable_perm_def)
  show "\<exists>h' ys. q_sort h head = Some h' \<and> linked h' head ys \<and> mset ys = mset xs"
    using q_sort_dlist [OF d] dlist_linked m by blast
  show "\<exists>h' ys. q_sort_v0 h head = Some h' \<and> linked h' head ys \<and> mset ys = mset xs"
    using q_sort_v0_dlist [OF d] dlist_linked m0 by blast
qed

text \<open>
  On the list of five elements with payloads \<^verbatim>\<open>"1"\<close> to \<^verbatim>\<open>"5"\<close>, with the allocator
  returning the blocks 7 and 17 and no out-buffer.
\<close>

theorem links_preserved_witness:
  "dlist heap5 1 [2, 3, 4, 5, 6] \<and> room None 0 \<and> linked heap5 1 [2, 3, 4, 5, 6] \<and>
   snd (q_insert_head heap5 1 ''x'' 7 17) \<and>
   linked (fst (q_insert_head heap5 1 ''x'' 7 17)) 1 [7, 2, 3, 4, 5, 6] \<and>
   snd (q_insert_tail heap5 1 ''x'' 7 17) \<and>
   linked (fst (q_insert_tail heap5 1 ''x'' 7 17)) 1 [2, 3, 4, 5, 6, 7] \<and>
   (\<exists>h' x sp'. q_remove_head heap5 1 None 0 = Inr (h', x, sp') \<and> linked h' 1 [3, 4, 5, 6]) \<and>
   (\<exists>h' x sp'. q_remove_tail heap5 1 None 0 = Inr (h', x, sp') \<and> linked h' 1 [2, 3, 4, 5]) \<and>
   (\<exists>h'. q_delete_mid heap5 1 = Some (h', True) \<and> q_delete_mid_v0 heap5 1 = Some (h', True) \<and>
      linked h' 1 [2, 3, 5, 6]) \<and>
   (\<exists>h'. q_delete_dup heap5 1 = Some (h', True) \<and> linked h' 1 [2, 3, 4, 5, 6]) \<and>
   (\<exists>h'. q_delete_dup_v0 heap5 1 = Some (h', True) \<and> linked h' 1 [2, 3, 4, 5, 6]) \<and>
   (\<exists>h'. q_swap heap5 1 = Some h' \<and> q_swap_v0 heap5 1 = Some h' \<and> linked h' 1 [3, 2, 5, 4, 6]) \<and>
   (\<exists>h'. q_reverse heap5 1 = Some h' \<and> q_reverse_v0 heap5 1 = Some h' \<and>
      linked h' 1 [6, 5, 4, 3, 2]) \<and>
   (\<exists>h' ys. q_sort heap5 1 = Some h' \<and> linked h' 1 ys \<and> mset ys = mset [2, 3, 4, 5, 6]) \<and>
   (\<exists>h' ys. q_sort_v0 heap5 1 = Some h' \<and> linked h' 1 ys \<and> mset ys = mset [2, 3, 4, 5, 6])"
proof -
  have e: "7 \<notin> set [1, 2, 3, 4, 5, 6 :: nat]" by simp
  have r: "room None 0" by (simp add: room_def)
  have i: "snd (q_insert_head heap5 1 ''x'' 7 17)" "snd (q_insert_tail heap5 1 ''x'' 7 17)"
    by (simp_all add: q_insert_head_def q_insert_tail_def Let_def)
  have k: "key heap5 2 = ''1''" "key heap5 3 = ''2''" "key heap5 4 = ''3''"
    "key heap5 5 = ''4''" "key heap5 6 = ''5''"
    using keys_heap5 by simp_all
  have dd: "dedup (same_key heap5) False [2, 3, 4, 5, 6] = [2, 3, 4, 5, 6]"
    by (simp add: same_key_def k)
  from links_preserved [OF dlist_heap5 e r, of "''x''" 17] show ?thesis
    using dlist_heap5 r i dd by simp
qed

end
